theory Spec2Isabelle
  imports Main "HOL-Library.Char_ord" "HOL-Library.List_Lexorder"
begin


section \<open>Low level storage (storage.py)\<close>

text \<open>
  Byte strings are lists of 8-bit characters.  The storage operates on one file object;
  the file object is its content together with the current position (the model of the
  unbuffered file or of the in-memory \<open>BytesIO\<close>).  Every operation of \<open>Storage\<close>
  starts with a \<open>seek\<close>, so two handles on the same file share the content only.
\<close>

type_synonym bytes = "char list"

definition TAB :: char where
  "TAB = CHR 0x09"

definition NL :: char where
  "NL = CHR 0x0A"

definition IDENTIFIER :: bytes where
  "IDENTIFIER = ''3dbf4cbc-f015-43d9-b280-ff6962a22198''"

definition DEFAULT_HEADER :: nat where
  "DEFAULT_HEADER = 15"

definition MAX_HEADER :: nat where
  "MAX_HEADER = 15"

text \<open>
  The exceptions of the source.  \<open>CorruptedFormat\<close> and \<open>ConcurrencyError\<close> are the
  subclasses of \<open>StorageError\<close>; the others are the Python built-in exceptions that the
  code raises itself (\<open>RuntimeError\<close>, a failed \<open>assert\<close>) or runs into
  (a method call on \<open>None\<close>).
\<close>

datatype error =
    StorageError
  | CorruptedFormat
  | ConcurrencyError
  | StoreError
  | NullEntryPoint
  | DetachedRoot
  | RuntimeError
  | AssertionError
  | TypeError
  | AttributeError
  | KeyError
  | ValueError

record fileobj =
  content :: bytes
  pos :: nat

subsection \<open>File object primitives\<close>

definition seek :: "nat \<Rightarrow> fileobj \<Rightarrow> fileobj" where
  "seek p f = f\<lparr>pos := p\<rparr>"

definition seek_end :: "fileobj \<Rightarrow> fileobj" where
  "seek_end f = f\<lparr>pos := length (content f)\<rparr>"

definition tell :: "fileobj \<Rightarrow> nat" where
  "tell f = pos f"

text \<open>\<open>f.read(n)\<close>: at most \<open>n\<close> bytes from the position; empty at or past the end.\<close>

definition file_read :: "nat \<Rightarrow> fileobj \<Rightarrow> bytes \<times> fileobj" where
  "file_read n f =
     (let data = take n (drop (pos f) (content f))
      in (data, f\<lparr>pos := pos f + length data\<rparr>))"

text \<open>
  \<open>f.write(data)\<close>: overwrite at the position and extend the file where needed
  (a position past the end is filled with zero bytes first).
\<close>

definition file_write :: "bytes \<Rightarrow> fileobj \<Rightarrow> fileobj" where
  "file_write data f =
     f\<lparr>content := take (pos f) (content f)
                    @ replicate (pos f - length (content f)) (CHR 0x00)
                    @ data
                    @ drop (pos f + length data) (content f),
       pos := pos f + length data\<rparr>"

text \<open>\<open>bytes.find(c)\<close>: the lowest index of \<open>c\<close>, \<open>None\<close> for Python's \<open>-1\<close>.\<close>

fun find_byte :: "char \<Rightarrow> bytes \<Rightarrow> nat option" where
  "find_byte c [] = None"
| "find_byte c (x # xs) = (if x = c then Some 0 else map_option Suc (find_byte c xs))"

text \<open>\<open>f.readline()\<close>: up to and including the next newline, or up to the end of file.\<close>

definition readline :: "fileobj \<Rightarrow> bytes \<times> fileobj" where
  "readline f =
     (let rest = drop (pos f) (content f);
          line = (case find_byte NL rest of None \<Rightarrow> rest | Some p \<Rightarrow> take (p + 1) rest)
      in (line, f\<lparr>pos := pos f + length line\<rparr>))"

definition startswith :: "bytes \<Rightarrow> char \<Rightarrow> bool" where
  "startswith l c = (case l of [] \<Rightarrow> False | x # _ \<Rightarrow> x = c)"

definition endswith :: "bytes \<Rightarrow> char \<Rightarrow> bool" where
  "endswith l c = (l \<noteq> [] \<and> last l = c)"

text \<open>\<open>line.find(b'\t', 1) != -1\<close>: a TAB at index 1 or later.\<close>

definition has_inner_tab :: "bytes \<Rightarrow> bool" where
  "has_inner_tab l = (find_byte TAB (drop 1 l) \<noteq> None)"

subsection \<open>Decimal root line\<close>

definition is_digit :: "char \<Rightarrow> bool" where
  "is_digit c = (c \<in> set ''0123456789'')"

text \<open>\<open>bytes.isdigit()\<close>: not empty and ASCII digits only.\<close>

definition isdigit :: "bytes \<Rightarrow> bool" where
  "isdigit l = (l \<noteq> [] \<and> list_all is_digit l)"

definition digit_val :: "char \<Rightarrow> nat" where
  "digit_val c = of_char c - 48"

definition dec_value :: "bytes \<Rightarrow> nat" where
  "dec_value ds = foldl (\<lambda>acc c. 10 * acc + digit_val c) 0 ds"

text \<open>
  \<open>int(line)\<close> on a line that passed the check of \<open>_parse_current_offset\<close>: digits
  followed by the newline, which \<open>int\<close> strips as white space.
\<close>

definition py_int :: "bytes \<Rightarrow> nat" where
  "py_int line = dec_value (butlast line)"

definition digit_char :: "nat \<Rightarrow> char" where
  "digit_char d = ''0123456789'' ! d"

fun dec_digits :: "nat \<Rightarrow> bytes" where
  "dec_digits n = (if n < 10 then [digit_char n] else dec_digits (n div 10) @ [digit_char (n mod 10)])"

declare dec_digits.simps [simp del]

definition zero_pad :: "nat \<Rightarrow> bytes \<Rightarrow> bytes" where
  "zero_pad width ds = replicate (width - length ds) (CHR ''0'') @ ds"

text \<open>
  \<open>'{:0{}d}'.format(offset, width)\<close>: zero-padded on the left to at least \<open>width\<close>
  characters; the sign of a negative number counts in the width and comes first.
\<close>

definition format_0d :: "int \<Rightarrow> nat \<Rightarrow> bytes" where
  "format_0d offset width =
     (if offset < 0 then CHR ''-'' # zero_pad (width - 1) (dec_digits (nat (- offset)))
      else zero_pad width (dec_digits (nat offset)))"

definition parse_current_offset :: "bytes \<Rightarrow> error + nat" where
  "parse_current_offset line =
     (if line = [] then Inl AssertionError
      else if \<not> (2 \<le> length line \<and> length line \<le> MAX_HEADER + 1
                 \<and> endswith line NL \<and> isdigit (butlast line))
      then Inl CorruptedFormat
      else Inr (py_int line))"

subsection \<open>Reading lines in blocks\<close>

text \<open>
  \<open>Storage._getline(buffer)\<close>: the next line out of the bytes left over from the
  previous call (\<open>buffer\<close>) followed by the file, read in blocks of 4096 bytes.  The
  result is the line (\<open>None\<close> at the end of file) and the bytes read beyond it; an
  unterminated tail raises \<open>RuntimeError\<close>.
\<close>

function getline_loop :: "bytes \<Rightarrow> fileobj \<Rightarrow> (error + bytes option \<times> bytes) \<times> fileobj" where
  "getline_loop buffer f =
     (let data = fst (file_read 4096 f); f' = snd (file_read 4096 f)
      in if data = [] then
           (if buffer = [] then (Inr (None, []), f') else (Inl RuntimeError, f'))
         else (case find_byte NL data of
                 Some p \<Rightarrow> (Inr (Some (buffer @ take (p + 1) data), drop (p + 1) data), f')
               | None \<Rightarrow> getline_loop (buffer @ data) f'))"
  by pat_completeness auto
termination
proof (relation "measure (\<lambda>(buffer, f). length (content f) - pos f)")
  show "wf (measure (\<lambda>(buffer, f). length (content f) - pos f))" by simp
next
  fix buffer :: bytes and f :: fileobj and x xa
  assume x: "x = fst (file_read 4096 f)" and xa: "xa = snd (file_read 4096 f)" and ne: "x \<noteq> []"
  from x ne have lt: "pos f < length (content f)"
    by (auto simp: file_read_def Let_def)
  from x ne have "0 < length x" by simp
  with x xa lt show "((buffer @ x, xa), (buffer, f)) \<in> measure (\<lambda>(buffer, f). length (content f) - pos f)"
    by (auto simp: file_read_def Let_def)
qed

declare getline_loop.simps [simp del]

definition getline :: "bytes \<Rightarrow> fileobj \<Rightarrow> (error + bytes option \<times> bytes) \<times> fileobj" where
  "getline buffer f =
     (case find_byte NL buffer of
        Some p \<Rightarrow> (Inr (Some (take (p + 1) buffer), drop (p + 1) buffer), f)
      | None \<Rightarrow> getline_loop buffer f)"

subsection \<open>Operations of the storage\<close>

text \<open>
  The advisory lock is taken and released inside each operation and never nested by
  this code; on the in-memory file it is a no-op.  It does not appear in the model.
\<close>

text \<open>\<open>Storage._init\<close>: reset to the identifier line and a zero root line.\<close>

definition init :: "fileobj \<Rightarrow> fileobj" where
  "init f = file_write (IDENTIFIER @ [NL] @ format_0d 0 DEFAULT_HEADER @ [NL])
                  (seek 0 (f\<lparr>content := []\<rparr>))"

definition open_in_memory :: fileobj where
  "open_in_memory = init \<lparr>content = [], pos = 0\<rparr>"

definition get_current :: "fileobj \<Rightarrow> (error + nat) \<times> fileobj" where
  "get_current f0 =
     (case getline [] (seek 0 f0) of
        (Inl e, f1) \<Rightarrow> (Inl e, f1)
      | (Inr (None, buffer), f1) \<Rightarrow> (Inl TypeError, f1)
      | (Inr (Some line, buffer), f1) \<Rightarrow>
          if butlast line \<noteq> IDENTIFIER then (Inl AssertionError, f1)
          else (case getline buffer f1 of
                  (Inl e, f2) \<Rightarrow> (Inl e, f2)
                | (Inr (None, buffer2), f2) \<Rightarrow> (Inl AssertionError, f2)
                | (Inr (Some line2, buffer2), f2) \<Rightarrow> (parse_current_offset line2, f2)))"

definition set_current :: "int \<Rightarrow> int option \<Rightarrow> fileobj \<Rightarrow> (error + unit) \<times> fileobj" where
  "set_current offset lease f0 =
     (case getline [] (seek 0 f0) of
        (Inl e, f1) \<Rightarrow> (Inl e, f1)
      | (Inr (None, buffer), f1) \<Rightarrow> (Inl TypeError, f1)
      | (Inr (Some line, buffer), f1) \<Rightarrow>
          if butlast line \<noteq> IDENTIFIER then (Inl AssertionError, f1)
          else (case getline buffer f1 of
                  (Inl e, f2) \<Rightarrow> (Inl e, f2)
                | (Inr (None, buffer2), f2) \<Rightarrow> (Inl AssertionError, f2)
                | (Inr (Some line2, buffer2), f2) \<Rightarrow>
                    (case parse_current_offset line2 of
                       Inl e \<Rightarrow> (Inl e, f2)
                     | Inr current_offset \<Rightarrow>
                         if (case lease of None \<Rightarrow> False | Some l \<Rightarrow> int current_offset \<noteq> l)
                         then (Inl ConcurrencyError, f2)
                         else (let new_line = format_0d offset (length line2 - 1) @ [NL]
                               in if length new_line \<noteq> length line2 then (Inl AssertionError, f2)
                                  else (Inr (), file_write new_line (seek (length line) f2))))))"

definition load :: "nat \<Rightarrow> fileobj \<Rightarrow> (error + bytes) \<times> fileobj" where
  "load offset f0 =
     (case getline [] (seek offset f0) of
        (Inl e, f1) \<Rightarrow> (Inl e, f1)
      | (Inr (None, buffer), f1) \<Rightarrow> (Inl AttributeError, f1)
      | (Inr (Some line, buffer), f1) \<Rightarrow>
          if \<not> startswith line TAB then (Inl CorruptedFormat, f1)
          else if \<not> endswith line NL then (Inl CorruptedFormat, f1)
          else if has_inner_tab line then (Inl CorruptedFormat, f1)
          else (Inr (butlast (drop 1 line)), f1))"

definition store :: "bytes \<Rightarrow> fileobj \<Rightarrow> (error + nat) \<times> fileobj" where
  "store record f0 =
     (let f = seek_end f0; p = tell f
      in if \<not> 2 \<le> p then (Inl AssertionError, f)
         else if TAB \<in> set record then (Inl AssertionError, f)
         else if NL \<in> set record then (Inl AssertionError, f)
         else (Inr p, file_write ([TAB] @ record @ [NL]) f))"

text \<open>
  The loop of \<open>Storage.scan\<close> over the record lines.  The line counter and the offset
  of the source only feed the error messages.
\<close>

function scan_loop :: "fileobj \<Rightarrow> (error + unit) \<times> fileobj" where
  "scan_loop f =
     (let line = fst (readline f); f' = snd (readline f)
      in if line = [] then (Inr (), f')
         else if \<not> endswith line NL then (Inl CorruptedFormat, f')
         else if \<not> startswith line TAB then (Inl CorruptedFormat, f')
         else if has_inner_tab line then (Inl CorruptedFormat, f')
         else scan_loop f')"
  by pat_completeness auto
termination
proof (relation "measure (\<lambda>f. length (content f) - pos f)")
  show "wf (measure (\<lambda>f. length (content f) - pos f))" by simp
next
  fix f :: fileobj and x xa
  assume x: "x = fst (readline f)" and xa: "xa = snd (readline f)" and ne: "x \<noteq> []"
  from x ne have lt: "pos f < length (content f)"
    by (auto simp: readline_def Let_def split: option.splits)
  from x ne have len: "0 < length x" by simp
  from x xa have "pos xa = pos f + length x" and "content xa = content f"
    by (simp_all add: readline_def Let_def)
  with len lt show "(xa, f) \<in> measure (\<lambda>f. length (content f) - pos f)"
    by (cases x) simp_all
qed

declare scan_loop.simps [simp del]

definition scan :: "fileobj \<Rightarrow> (error + unit) \<times> fileobj" where
  "scan f0 =
     (let line = fst (readline (seek 0 f0)); f1 = snd (readline (seek 0 f0))
      in if line = [] then (Inl CorruptedFormat, f1)
         else if \<not> endswith line NL then (Inl CorruptedFormat, f1)
         else if butlast line \<noteq> IDENTIFIER then (Inl CorruptedFormat, f1)
         else (let line2 = fst (readline f1); f2 = snd (readline f1)
               in if \<not> endswith line2 NL then (Inl CorruptedFormat, f2)
                  else (case parse_current_offset line2 of
                          Inl e \<Rightarrow> (Inl e, f2)
                        | Inr _ \<Rightarrow> scan_loop f2)))"

text \<open>
  The bytes that \<open>_getline\<close> still has to deliver: the left-over buffer followed by
  the unread part of the file.
\<close>

definition stream :: "bytes \<Rightarrow> fileobj \<Rightarrow> bytes" where
  "stream buffer f = buffer @ drop (pos f) (content f)"

subsection \<open>Files produced by the storage\<close>

text \<open>A record as \<open>store\<close> writes it: the marker, the bytes, the newline.\<close>

definition frame :: "bytes \<Rightarrow> bytes" where
  "frame r = TAB # r @ [NL]"

text \<open>The file with the root line \<open>ds\<close> and the records \<open>recs\<close>.\<close>

definition file_image :: "bytes \<Rightarrow> bytes list \<Rightarrow> bytes" where
  "file_image ds recs = IDENTIFIER @ NL # ds @ NL # concat (map frame recs)"

text \<open>
  A call of \<open>store\<close> or of \<open>set_current\<close>, and the file after a sequence of such
  calls.  A call that raises leaves the file as the exception leaves it.
\<close>

datatype call = Call_store bytes | Call_set_current int "int option"

fun do_call :: "call \<Rightarrow> fileobj \<Rightarrow> fileobj" where
  "do_call (Call_store b) f = snd (store b f)"
| "do_call (Call_set_current off lease) f = snd (set_current off lease f)"

text \<open>
  The legal calls: \<open>store\<close> of a record without TAB or newline, as its documentation
  asks, and \<open>set_current\<close> of an offset that is not negative, as the offset of every
  record is.  (\<open>set_current\<close> does not check the sign: for a negative offset it writes
  a root line with a minus sign.)
\<close>

fun legal :: "call \<Rightarrow> bool" where
  "legal (Call_store b) = (TAB \<notin> set b \<and> NL \<notin> set b)"
| "legal (Call_set_current off lease) = (0 \<le> off)"

definition run_calls :: "call list \<Rightarrow> fileobj \<Rightarrow> fileobj" where
  "run_calls cs f = foldl (\<lambda>f c. do_call c f) f cs"

text \<open>The file with the byte at index \<open>i\<close> replaced by \<open>c\<close>.\<close>

definition mutate :: "nat \<Rightarrow> char \<Rightarrow> fileobj \<Rightarrow> fileobj" where
  "mutate i c f = f\<lparr>content := (content f)[i := c]\<rparr>"

text \<open>
  The shape of a file that \<open>_init\<close>, \<open>store\<close> and \<open>set_current\<close> produce: a root line
  of \<open>DEFAULT_HEADER\<close> digits, then records without TAB or newline inside.
\<close>

definition good_image :: "bytes \<Rightarrow> bytes list \<Rightarrow> bool" where
  "good_image ds recs \<longleftrightarrow> length ds = 15 \<and> list_all is_digit ds
      \<and> (\<forall>r\<in>set recs. TAB \<notin> set r \<and> NL \<notin> set r)"

section \<open>Record store (store.py): records, persisting and commit\<close>

text \<open>
  The values of leaves are JSON values.  \<open>json.dumps\<close> and \<open>json.loads\<close> belong to
  the Python library, not to this repository: they are parameters of the functions
  below (\<open>dumps\<close> with the separators and the key sorting that \<open>Store._record\<close> asks
  for, \<open>loads\<close> returning \<open>None\<close> where decoding or parsing raises).
\<close>

datatype json =
    JNull
  | JBool bool
  | JInt int
  | JStr string
  | JList "json list"
  | JDict "(string \<times> json) list"

datatype kind = Kind_node | Kind_leaf

definition kind_value :: "kind \<Rightarrow> bytes" where
  "kind_value k = (case k of Kind_node \<Rightarrow> ''@'' | Kind_leaf \<Rightarrow> ''='')"

text \<open>\<open>Kind(record[:1])\<close>: the kind with that value; \<open>None\<close> where the enum raises \<open>ValueError\<close>.\<close>

definition Kind :: "bytes \<Rightarrow> kind option" where
  "Kind b = (if b = ''@'' then Some Kind_node else if b = ''='' then Some Kind_leaf else None)"

text \<open>
  The offsets of items are the Python values for which \<open>isinstance(value, int)\<close> holds:
  the integers and the two booleans.  A boolean counts as 0 or 1 wherever the offset is
  used as a number (\<open>seek\<close>, the format of the root line, the comparison with the
  lease), and \<open>json.dumps\<close> writes it back as a boolean.
\<close>

datatype pyint = PyInt int | PyBool bool

fun int_of :: "pyint \<Rightarrow> int" where
  "int_of (PyInt i) = i"
| "int_of (PyBool b) = (if b then 1 else 0)"

fun json_of :: "pyint \<Rightarrow> json" where
  "json_of (PyInt i) = JInt i"
| "json_of (PyBool b) = JBool b"

fun int_value :: "json \<Rightarrow> pyint option" where
  "int_value (JInt i) = Some (PyInt i)"
| "int_value (JBool b) = Some (PyBool b)"
| "int_value _ = None"

text \<open>
  \<open>Store.commit\<close> and \<open>_persist\<close> walk from the root down through the children a
  node owns and never look at the link to the parent; the tree under the root is
  therefore a value here.  A child of a node is either the offset of a record not loaded
  yet (the tuple \<open>(offset, None)\<close> of the source) or the child itself.  The offset of an
  item is \<open>None\<close> when the item is modified.  The volatile mode, which replaces loaded
  children by an offset and a weak reference, is left out.
\<close>

datatype item =
    Leaf "pyint option" json
  | Node "pyint option" "(string \<times> entry) list"
and entry =
    Unresolved pyint
  | Child item

text \<open>The property \<open>Item.offset\<close>.\<close>

fun item_offset :: "item \<Rightarrow> pyint option" where
  "item_offset (Leaf off v) = off"
| "item_offset (Node off es) = off"

text \<open>
  \<open>Store._load(offset)\<close>.  Seeking to a negative offset raises (\<open>ValueError\<close> on the
  in-memory file).  The item keeps the offset as it was given, and a node keeps the
  values of its dictionary as they were decoded.
\<close>

definition load_item :: "(bytes \<Rightarrow> json option) \<Rightarrow> pyint \<Rightarrow> fileobj \<Rightarrow> (error + item) \<times> fileobj" where
  "load_item loads off f =
     (if int_of off < 0 then (Inl ValueError, f)
      else case load (nat (int_of off)) f of
        (Inl e, f') \<Rightarrow> (Inl e, f')
      | (Inr rec, f') \<Rightarrow>
          if length rec < 2 then (Inl StoreError, f')
          else (case Kind (take 1 rec) of
                  None \<Rightarrow> (Inl ValueError, f')
                | Some k \<Rightarrow>
                    (case loads (drop 1 rec) of
                       None \<Rightarrow> (Inl StoreError, f')
                     | Some data \<Rightarrow>
                         (case k of
                            Kind_node \<Rightarrow>
                              (case data of
                                 JDict kvs \<Rightarrow>
                                   if \<not> list_all (\<lambda>(key, v). int_value v \<noteq> None) kvs
                                   then (Inl StoreError, f')
                                   else (Inr (Node (Some off)
                                           (map (\<lambda>(key, v). (key, Unresolved (case int_value v of Some i \<Rightarrow> i | None \<Rightarrow> PyInt 0))) kvs)), f')
                               | _ \<Rightarrow> (Inl StoreError, f'))
                          | Kind_leaf \<Rightarrow> (Inr (Leaf (Some off) data), f')))))"

text \<open>\<open>Store._record(kind, value)\<close>.\<close>

definition record_value :: "(json \<Rightarrow> bytes) \<Rightarrow> kind \<Rightarrow> json \<Rightarrow> fileobj \<Rightarrow> (error + nat) \<times> fileobj" where
  "record_value dumps k v f = store (kind_value k @ dumps v) f"

text \<open>The dictionary \<open>node\<close> that \<open>Node._persist\<close> records: the offset of each key.\<close>

definition node_json :: "(string \<times> pyint option) list \<Rightarrow> json" where
  "node_json offsets =
     JDict (map (\<lambda>(key, off). (key, case off of None \<Rightarrow> JNull | Some i \<Rightarrow> json_of i)) offsets)"

text \<open>
  The entries of a node keep their order; the children that the walk over the sorted
  entries has persisted are put back at their key.
\<close>

definition put_back :: "(string \<times> entry) list \<Rightarrow> (string \<times> entry) list \<Rightarrow> (string \<times> entry) list" where
  "put_back es done =
     map (\<lambda>(key, e). (key, case map_of done key of Some e' \<Rightarrow> e' | None \<Rightarrow> e)) es"

text \<open>
  \<open>Leaf._persist\<close> and \<open>Node._persist\<close>, and the loop of the latter over
  \<open>sorted(self.__entries.items())\<close>.  The result is the exception raised, if any, the
  item with the offsets assigned so far, and the file.  The loop also returns the
  dictionary \<open>node\<close>.  The assertion \<open>self.attached\<close> holds for the root of a store and
  for every child stored in a node; \<open>assert self.modified\<close> tests a bound method and
  never fails.
\<close>

function persist :: "(json \<Rightarrow> bytes) \<Rightarrow> item \<Rightarrow> fileobj \<Rightarrow> error option \<times> item \<times> fileobj"
  and persist_entries :: "(json \<Rightarrow> bytes) \<Rightarrow> (string \<times> entry) list \<Rightarrow> fileobj
        \<Rightarrow> error option \<times> (string \<times> entry) list \<times> (string \<times> pyint option) list \<times> fileobj"
where
  "persist dumps (Leaf off v) f =
     (if off \<noteq> None then (Some AssertionError, Leaf off v, f)
      else case record_value dumps Kind_leaf v f of
        (Inl e, f') \<Rightarrow> (Some e, Leaf off v, f')
      | (Inr p, f') \<Rightarrow> (None, Leaf (Some (PyInt (int p))) v, f'))"
| "persist dumps (Node off es) f =
     (case persist_entries dumps (sort_key fst es) f of
        (Some e, done, offsets, f') \<Rightarrow> (Some e, Node off (put_back es done), f')
      | (None, done, offsets, f') \<Rightarrow>
          (case record_value dumps Kind_node (node_json offsets) f' of
             (Inl e, f'') \<Rightarrow> (Some e, Node off (put_back es done), f'')
           | (Inr p, f'') \<Rightarrow> (None, Node (Some (PyInt (int p))) (put_back es done), f'')))"
| "persist_entries dumps [] f = (None, [], [], f)"
| "persist_entries dumps ((key, Unresolved off) # rest) f =
     (case persist_entries dumps rest f of
        (err, done, offsets, f') \<Rightarrow> (err, (key, Unresolved off) # done, (key, Some off) # offsets, f'))"
| "persist_entries dumps ((key, Child c) # rest) f =
     (case (if item_offset c = None then persist dumps c f else (None, c, f)) of
        (Some e, c', f') \<Rightarrow> (Some e, (key, Child c') # rest, [], f')
      | (None, c', f') \<Rightarrow>
          (case persist_entries dumps rest f' of
             (err, done, offsets, f'') \<Rightarrow> (err, (key, Child c') # done, (key, item_offset c') # offsets, f'')))"
  by pat_completeness auto
termination
proof (relation "measure (\<lambda>x. case x of Inl (d, it, f) \<Rightarrow> size it
                                   | Inr (d, es, f) \<Rightarrow> size_list (\<lambda>(k, e). size e) es)")
  show "wf (measure (\<lambda>x. case x of Inl (d, it, f) \<Rightarrow> size it
                                 | Inr (d :: json \<Rightarrow> bytes, es, f :: fileobj) \<Rightarrow> size_list (\<lambda>(k :: string, e). size e) es))"
    by simp
next
  fix dumps :: "json \<Rightarrow> bytes" and off :: "pyint option" and es :: "(string \<times> entry) list" and f :: fileobj
  have ins: "size_list h (insort_key g x xs) = Suc (h x + size_list h xs)"
    for h :: "string \<times> entry \<Rightarrow> nat" and g :: "string \<times> entry \<Rightarrow> string" and x xs
    by (induct xs) auto
  have srt: "size_list h (sort_key g xs) = size_list h xs"
    for h :: "string \<times> entry \<Rightarrow> nat" and g :: "string \<times> entry \<Rightarrow> string" and xs
    by (induct xs) (auto simp: ins)
  have le: "size_list (\<lambda>(k, e). size e) xs \<le> size_list (size_prod (\<lambda>x. 0) size) xs"
    for xs :: "(string \<times> entry) list"
    by (induct xs) auto
  show "(Inr (dumps, sort_key fst es, f), Inl (dumps, Node off es, f))
      \<in> measure (\<lambda>x. case x of Inl (d, it, f) \<Rightarrow> size it
                              | Inr (d, es, f) \<Rightarrow> size_list (\<lambda>(k, e). size e) es)"
    using le [of es] by (simp add: srt)
qed auto

declare persist.simps [simp del] persist_entries.simps [simp del]

datatype root = RootNone | RootOffset int | RootItem item

text \<open>
  A \<open>Store\<close>: its storage, the root offset it has observed (\<open>__current_root\<close>) and its
  root (\<open>__root\<close>: \<open>None\<close> after \<open>detach_root\<close>, the offset while the root is not
  loaded, the root item otherwise).
\<close>

record store =
  storage :: fileobj
  current_root :: int
  root :: root

text \<open>\<open>Store(storage)\<close>: the constructor reads the current root of the file.\<close>

definition new_store :: "fileobj \<Rightarrow> error + store" where
  "new_store f =
     (case get_current f of
        (Inl e, f') \<Rightarrow> Inl e
      | (Inr r, f') \<Rightarrow> Inr \<lparr>storage = f', current_root = int r, root = RootOffset (int r)\<rparr>)"


text \<open>
  \<open>Store.commit\<close>.  Formatting the offset \<open>None\<close> in \<open>set_current\<close> would raise
  \<open>TypeError\<close>; \<open>_persist\<close> always assigns an offset before.
\<close>

definition commit_root :: "int \<Rightarrow> store \<Rightarrow> (error + int) \<times> store" where
  "commit_root off s =
     (case set_current off (Some (current_root s)) (storage s) of
        (Inl e, f') \<Rightarrow> (Inl e, s\<lparr>storage := f'\<rparr>)
      | (Inr u, f') \<Rightarrow> (Inr off, s\<lparr>storage := f', current_root := off\<rparr>))"

definition commit :: "(json \<Rightarrow> bytes) \<Rightarrow> store \<Rightarrow> (error + int) \<times> store" where
  "commit dumps s =
     (case root s of
        RootNone \<Rightarrow> (Inl DetachedRoot, s)
      | RootOffset off \<Rightarrow> commit_root off s
      | RootItem it \<Rightarrow>
          (case item_offset it of
             Some off \<Rightarrow> commit_root (int_of off) s
           | None \<Rightarrow>
               (case persist dumps it (storage s) of
                  (Some e, it', f') \<Rightarrow> (Inl e, s\<lparr>storage := f', root := RootItem it'\<rparr>)
                | (None, it', f') \<Rightarrow>
                    (case item_offset it' of
                       None \<Rightarrow> (Inl TypeError, s\<lparr>storage := f', root := RootItem it'\<rparr>)
                     | Some off \<Rightarrow> commit_root (int_of off) (s\<lparr>storage := f', root := RootItem it'\<rparr>)))))"

text \<open>
  What the claims need to know about \<open>json.dumps\<close>: its output contains no raw TAB and
  no raw newline (it escapes control characters inside strings, and the separators asked
  for are \<open>,\<close> and \<open>:\<close>).
\<close>

definition clean_dumps :: "(json \<Rightarrow> bytes) \<Rightarrow> bool" where
  "clean_dumps dumps = (\<forall>v. TAB \<notin> set (dumps v) \<and> NL \<notin> set (dumps v))"

subsection \<open>Reading the tree of a store\<close>





text \<open>
  A file for the examples: the root line holds 57; the record at offset 53 is the leaf
  \<open>1\<close> and the record at offset 57 the node \<open>{"a": 53}\<close>.  \<open>example_loads\<close> decodes
  these two values as \<open>json.loads\<close> does.
\<close>

definition example_node :: bytes where
  "example_node = ''{'' @ [CHR 0x22] @ ''a'' @ [CHR 0x22] @ '':53}''"


definition example_loads :: "bytes \<Rightarrow> json option" where
  "example_loads b =
     (if b = ''1'' then Some (JInt 1)
      else if b = example_node then Some (JDict [(''a'', JInt 53)])
      else None)"

section \<open>Items as objects (store.py): links and identity\<close>

text \<open>
  The parent link of an item and the test \<open>is\<close> on nodes depend on which object an item
  is.  Here the items live in a heap: a list of objects, an item being its index.  Objects
  are never removed from the heap (an item that nothing refers to any more stays where it
  is).  An entry of a node is the tuple \<open>(offset, None)\<close> of a child that is not loaded,
  or the child.  The volatile mode is left out.
\<close>

type_synonym ref = nat

datatype parent = PStore | PItem ref

datatype link = Link parent string

datatype slot = Unloaded pyint | Loaded ref

datatype body = LeafB json | NodeB "(string \<times> slot) list"

record obj =
  o_link :: "link option"
  o_offset :: "pyint option"
  o_body :: body

text \<open>
  The items, the file of the store they are loaded from, and the calls of
  \<open>Schema.setup\<close> made so far, each recorded by the path of the tree it was called on
  (the trees of tree.py are below).
\<close>

record world =
  objs :: "obj list"
  disk :: fileobj
  setups :: "string list list"

text \<open>\<open>Leaf(value)\<close> and \<open>Node()\<close>: a new item, detached and modified.\<close>

definition new_obj :: "body \<Rightarrow> world \<Rightarrow> ref \<times> world" where
  "new_obj b w =
     (length (objs w), w\<lparr>objs := objs w @ [\<lparr>o_link = None, o_offset = None, o_body = b\<rparr>]\<rparr>)"

definition new_Leaf :: "json \<Rightarrow> world \<Rightarrow> ref \<times> world" where
  "new_Leaf v w = new_obj (LeafB v) w"

definition new_Node :: "world \<Rightarrow> ref \<times> world" where
  "new_Node w = new_obj (NodeB []) w"

text \<open>\<open>Item._attach\<close> and \<open>Item._detach\<close>.\<close>

definition attach :: "ref \<Rightarrow> link \<Rightarrow> world \<Rightarrow> error option \<times> world" where
  "attach r l w =
     (if o_link (objs w ! r) \<noteq> None then (Some StoreError, w)
      else (None, w\<lparr>objs := (objs w)[r := (objs w ! r)\<lparr>o_link := Some l\<rparr>]\<rparr>))"

definition detach :: "ref \<Rightarrow> world \<Rightarrow> error option \<times> world" where
  "detach r w =
     (if o_link (objs w ! r) = None then (Some StoreError, w)
      else (None, w\<lparr>objs := (objs w)[r := (objs w ! r)\<lparr>o_link := None\<rparr>]\<rparr>))"

text \<open>
  \<open>Item._changed\<close>: an item that has an offset loses it and tells its parent, which does
  the same (\<open>Item._child_changed\<close>); the store only asserts that the key is the one of the
  root (\<open>Store._child_changed\<close>).  Every call clears an offset, so the calls end.
\<close>

function changed :: "ref \<Rightarrow> obj list \<Rightarrow> error option \<times> obj list" where
  "changed r h =
     (if r < length h \<and> o_offset (h ! r) \<noteq> None
      then (case o_link (h ! r) of
              None \<Rightarrow> (None, h[r := (h ! r)\<lparr>o_offset := None\<rparr>])
            | Some (Link PStore key) \<Rightarrow>
                (if key = ''__ROOT__'' then None else Some AssertionError,
                 h[r := (h ! r)\<lparr>o_offset := None\<rparr>])
            | Some (Link (PItem p) key) \<Rightarrow> changed p (h[r := (h ! r)\<lparr>o_offset := None\<rparr>]))
      else (None, h))"
  by pat_completeness auto
termination
proof (relation "measure (\<lambda>(r, h). length (filter (\<lambda>x. o_offset x \<noteq> None) h))")
  show "wf (measure (\<lambda>(r, h). length (filter (\<lambda>x. o_offset x \<noteq> None) h)))" by simp
next
  fix r :: ref and h :: "obj list" and x2 :: link and x1 :: parent and x2a :: string and x2b :: ref
  assume a: "r < length h \<and> o_offset (h ! r) \<noteq> None"
  have "length (filter (\<lambda>x. o_offset x \<noteq> None) (xs[i := (xs ! i)\<lparr>o_offset := None\<rparr>]))
      < length (filter (\<lambda>x. o_offset x \<noteq> None) xs)"
    if "i < length xs" "o_offset (xs ! i) \<noteq> None" for xs :: "obj list" and i
    using that
  proof (induction xs arbitrary: i)
    case Nil
    then show ?case by simp
  next
    case (Cons x xs)
    show ?case
    proof (cases i)
      case 0
      with Cons.prems show ?thesis by simp
    next
      case (Suc j)
      with Cons.prems Cons.IH [of j] show ?thesis by simp
    qed
  qed
  with a show "((x2b, h[r := (h ! r)\<lparr>o_offset := None\<rparr>]), r, h)
      \<in> measure (\<lambda>(r, h). length (filter (\<lambda>x. o_offset x \<noteq> None) h))"
    by simp
qed

declare changed.simps [simp del]

definition item_changed :: "ref \<Rightarrow> world \<Rightarrow> error option \<times> world" where
  "item_changed r w = (case changed r (objs w) of (e, h) \<Rightarrow> (e, w\<lparr>objs := h\<rparr>))"

text \<open>
  \<open>Store._load\<close> as a new object: the record at the offset, with the entries of a node
  not loaded.
\<close>

definition load_obj :: "(bytes \<Rightarrow> json option) \<Rightarrow> pyint \<Rightarrow> world \<Rightarrow> (error + ref) \<times> world" where
  "load_obj loads off w =
     (case load_item loads off (disk w) of
        (Inl e, f') \<Rightarrow> (Inl e, w\<lparr>disk := f'\<rparr>)
      | (Inr (Leaf o' v), f') \<Rightarrow>
          (Inr (length (objs w)),
           w\<lparr>objs := objs w @ [\<lparr>o_link = None, o_offset = o', o_body = LeafB v\<rparr>], disk := f'\<rparr>)
      | (Inr (Node o' es), f') \<Rightarrow>
          (Inr (length (objs w)),
           w\<lparr>objs := objs w @ [\<lparr>o_link = None, o_offset = o',
                  o_body = NodeB (map (\<lambda>(key, e). (key, case e of Unresolved p \<Rightarrow> Unloaded p
                                                          | Child c \<Rightarrow> Unloaded (PyInt 0))) es)\<rparr>],
             disk := f'\<rparr>))"

text \<open>
  The entries of a node: an assignment to a key, and the deletion of a key.  A leaf has
  no entries; the methods of \<open>Node\<close> below, called on a leaf, raise as Python does
  (\<open>AttributeError\<close> where \<open>Leaf\<close> has no such method, \<open>TypeError\<close> where \<open>Leaf.get\<close> and
  \<open>Leaf.set\<close> take other arguments).
\<close>

definition is_node :: "ref \<Rightarrow> world \<Rightarrow> bool" where
  "is_node n w = (case o_body (objs w ! n) of NodeB es \<Rightarrow> True | LeafB v \<Rightarrow> False)"

definition entries_of :: "ref \<Rightarrow> world \<Rightarrow> (string \<times> slot) list" where
  "entries_of n w = (case o_body (objs w ! n) of NodeB es \<Rightarrow> es | LeafB v \<Rightarrow> [])"

definition assign :: "string \<Rightarrow> slot \<Rightarrow> (string \<times> slot) list \<Rightarrow> (string \<times> slot) list" where
  "assign k e es =
     (if k \<in> fst ` set es then map (\<lambda>(key, x). if key = k then (key, e) else (key, x)) es
      else es @ [(k, e)])"

definition set_entries :: "ref \<Rightarrow> (string \<times> slot) list \<Rightarrow> world \<Rightarrow> world" where
  "set_entries n es w = w\<lparr>objs := (objs w)[n := (objs w ! n)\<lparr>o_body := NodeB es\<rparr>]\<rparr>"

text \<open>\<open>Node.get(key)\<close>: the child at the key, loaded if it is not.\<close>

definition node_get :: "(bytes \<Rightarrow> json option) \<Rightarrow> ref \<Rightarrow> string \<Rightarrow> world \<Rightarrow> (error + ref) \<times> world" where
  "node_get loads n key w =
     (if \<not> is_node n w then (Inl TypeError, w)
      else case map_of (entries_of n w) key of
        None \<Rightarrow> (Inl KeyError, w)
      | Some (Loaded c) \<Rightarrow> (Inr c, w)
      | Some (Unloaded off) \<Rightarrow>
          (case load_obj loads off w of
             (Inl e, w1) \<Rightarrow> (Inl e, w1)
           | (Inr c, w1) \<Rightarrow>
               (case attach c (Link (PItem n) key) w1 of
                  (Some e, w2) \<Rightarrow> (Inl e, w2)
                | (None, w2) \<Rightarrow>
                    (Inr c, set_entries n (assign key (Loaded c) (entries_of n w2)) w2))))"

text \<open>
  \<open>Node.set(key, value)\<close>: attach the value, store it at the key, mark the node as
  changed.  Nothing is done to the item that the key held before.
\<close>

definition node_set :: "ref \<Rightarrow> string \<Rightarrow> ref \<Rightarrow> world \<Rightarrow> error option \<times> world" where
  "node_set n key v w =
     (if \<not> is_node n w then (Some TypeError, w)
      else case attach v (Link (PItem n) key) w of
        (Some e, w1) \<Rightarrow> (Some e, w1)
      | (None, w1) \<Rightarrow>
          item_changed n (set_entries n (assign key (Loaded v) (entries_of n w1)) w1))"

text \<open>\<open>Node.remove(key)\<close>: get the child, detach it, delete the key, mark the node as changed.\<close>

definition node_remove :: "(bytes \<Rightarrow> json option) \<Rightarrow> ref \<Rightarrow> string \<Rightarrow> world \<Rightarrow> (error + ref) \<times> world" where
  "node_remove loads n key w =
     (if \<not> is_node n w then (Inl AttributeError, w)
      else case node_get loads n key w of
        (Inl e, w1) \<Rightarrow> (Inl e, w1)
      | (Inr c, w1) \<Rightarrow>
          (case detach c w1 of
             (Some e, w2) \<Rightarrow> (Inl e, w2)
           | (None, w2) \<Rightarrow>
               (case item_changed n (set_entries n (filter (\<lambda>(k, x). k \<noteq> key) (entries_of n w2)) w2) of
                  (Some e, w3) \<Rightarrow> (Inl e, w3)
                | (None, w3) \<Rightarrow> (Inr c, w3))))"

text \<open>
  \<open>Node.node(key, created_cb)\<close>: the node at the key, created if the key is missing.
  The result tells whether the callback was called.  The assertion fails when the key
  holds a leaf.
\<close>

definition node_node :: "(bytes \<Rightarrow> json option) \<Rightarrow> ref \<Rightarrow> string \<Rightarrow> world \<Rightarrow> (error + ref \<times> bool) \<times> world" where
  "node_node loads n key w =
     (if \<not> is_node n w then (Inl AttributeError, w)
      else case node_get loads n key w of
        (Inl KeyError, w1) \<Rightarrow>
          (case new_Node w1 of
             (c, w2) \<Rightarrow>
               (case node_set n key c w2 of
                  (Some e, w3) \<Rightarrow> (Inl e, w3)
                | (None, w3) \<Rightarrow> (Inr (c, True), w3)))
      | (Inl e, w1) \<Rightarrow> (Inl e, w1)
      | (Inr c, w1) \<Rightarrow>
          (case o_body (objs w1 ! c) of
             NodeB es \<Rightarrow> (Inr (c, False), w1)
           | LeafB v \<Rightarrow> (Inl AssertionError, w1)))"

text \<open>\<open>Node.keys()\<close>.\<close>

definition node_keys :: "ref \<Rightarrow> world \<Rightarrow> error + string list" where
  "node_keys n w = (if \<not> is_node n w then Inl AttributeError else Inr (map fst (entries_of n w)))"

section \<open>The tree facade (tree.py)\<close>

text \<open>
  A \<open>Tree\<close> is a view of a node: its parent tree, its name, and its node when the node
  exists (\<open>__node\<close>).  The parent of a tree is part of its value here; a tree that the
  source updates in place (\<open>__realize\<close> fills in \<open>__node\<close> along the parents) is returned
  updated.  The cache \<open>__entries\<close> of child trees, a dictionary of weak references, is
  left out: \<open>_get\<close> makes the child tree each time.

  The schema is the base class \<open>Schema\<close>: \<open>descend\<close> returns the same schema,
  \<open>validate\<close> accepts every value, \<open>extra\<close> and \<open>pose\<close> return \<open>None\<close>, and \<open>setup\<close> does
  nothing; each call of \<open>setup\<close> is recorded in \<open>setups\<close>.
\<close>

datatype tree = Tree (t_parent: "tree option") (t_name: "string option") (t_node: "ref option")

text \<open>The property \<open>_path\<close>; the assertions on the name hold for the trees built here.\<close>

fun tree_path :: "tree \<Rightarrow> string list" where
  "tree_path (Tree None nm n) = []"
| "tree_path (Tree (Some p) nm n) = tree_path p @ (case nm of None \<Rightarrow> [] | Some k \<Rightarrow> [k])"

text \<open>\<open>Tree._setup\<close>: the call of \<open>Schema.setup\<close> on the tree.\<close>

definition tree_setup :: "tree \<Rightarrow> world \<Rightarrow> world" where
  "tree_setup t w = w\<lparr>setups := setups w @ [tree_path t]\<rparr>"

text \<open>
  \<open>Tree.__realize\<close>: when the tree has no node, realize the parent, get or create the
  node at the name of the tree in the node of the parent, and set the tree up if the
  node was created.  Without a parent, \<open>None.__realize\<close> raises \<open>AttributeError\<close>.
\<close>

fun realize :: "(bytes \<Rightarrow> json option) \<Rightarrow> tree \<Rightarrow> world \<Rightarrow> (error + tree) \<times> world" where
  "realize loads (Tree p nm (Some n)) w = (Inr (Tree p nm (Some n)), w)"
| "realize loads (Tree None nm None) w = (Inl AttributeError, w)"
| "realize loads (Tree (Some p) nm None) w =
     (case realize loads p w of
        (Inl e, w1) \<Rightarrow> (Inl e, w1)
      | (Inr p', w1) \<Rightarrow>
          (case (t_node p', nm) of
             (Some pn, Some name) \<Rightarrow>
               (case node_node loads pn name w1 of
                  (Inl e, w2) \<Rightarrow> (Inl e, w2)
                | (Inr (c, created), w2) \<Rightarrow>
                    (Inr (Tree (Some p') nm (Some c)),
                     if created then tree_setup (Tree (Some p') nm (Some c)) w2 else w2))
           | _ \<Rightarrow> (Inl AttributeError, w1)))"

text \<open>
  The branch of \<open>Tree._set(name, value)\<close> for a value that is \<open>Empty()\<close>: make the node,
  realize the tree, store the node at the name.  The variable \<open>setup\<close> is set, and the
  call \<open>self.__schema.setup(self)\<close> that tests it at the end of \<open>_set\<close> is a comment.
\<close>

definition tree_set_empty :: "(bytes \<Rightarrow> json option) \<Rightarrow> tree \<Rightarrow> string \<Rightarrow> world
      \<Rightarrow> error option \<times> tree \<times> world" where
  "tree_set_empty loads t name w =
     (case new_Node w of
        (c, w1) \<Rightarrow>
          (case realize loads t w1 of
             (Inl e, w2) \<Rightarrow> (Some e, t, w2)
           | (Inr t', w2) \<Rightarrow>
               (case t_node t' of
                  None \<Rightarrow> (Some AttributeError, t', w2)
                | Some n \<Rightarrow> (case node_set n name c w2 of (r, w3) \<Rightarrow> (r, t', w3)))))"

section \<open>Properties of the low level storage\<close>

lemma find_byte_eq:
  "find_byte c xs = (if c \<in> set xs then Some (length (takeWhile (\<lambda>x. x \<noteq> c) xs)) else None)"
  by (induction xs) auto

lemma take_Suc_takeWhile:
  "c \<in> set xs \<Longrightarrow> take (Suc (length (takeWhile (\<lambda>x. x \<noteq> c) xs))) xs = takeWhile (\<lambda>x. x \<noteq> c) xs @ [c]"
  by (induction xs) auto

lemma drop_Suc_takeWhile:
  "drop (Suc (length (takeWhile (\<lambda>x. x \<noteq> c) xs))) xs = tl (dropWhile (\<lambda>x. x \<noteq> c) xs)"
  by (induction xs) auto

lemma takeWhile_prefix_hit:
  "c \<in> set a \<Longrightarrow> takeWhile (\<lambda>x. x \<noteq> c) (a @ b) = takeWhile (\<lambda>x. x \<noteq> c) a"
  by (induction a) auto

lemma dropWhile_prefix_hit:
  "c \<in> set a \<Longrightarrow> dropWhile (\<lambda>x. x \<noteq> c) (a @ b) = dropWhile (\<lambda>x. x \<noteq> c) a @ b"
  by (induction a) auto

lemma takeWhile_prefix_miss:
  "c \<notin> set a \<Longrightarrow> takeWhile (\<lambda>x. x \<noteq> c) (a @ b) = a @ takeWhile (\<lambda>x. x \<noteq> c) b"
  by (induction a) auto

lemma dropWhile_prefix_miss:
  "c \<notin> set a \<Longrightarrow> dropWhile (\<lambda>x. x \<noteq> c) (a @ b) = dropWhile (\<lambda>x. x \<noteq> c) b"
  by (induction a) auto

lemma tl_dropWhile_append:
  "c \<in> set a \<Longrightarrow> tl (dropWhile (\<lambda>x. x \<noteq> c) a @ b) = tl (dropWhile (\<lambda>x. x \<noteq> c) a) @ b"
  by (induction a) auto

lemma file_read_fst: "fst (file_read n f) = take n (drop (pos f) (content f))"
  by (simp add: file_read_def Let_def)

lemma file_read_snd_content: "content (snd (file_read n f)) = content f"
  by (simp add: file_read_def Let_def)

lemma file_read_snd_rest:
  "drop (pos (snd (file_read n f))) (content (snd (file_read n f))) = drop n (drop (pos f) (content f))"
proof -
  have "pos (snd (file_read n f)) = pos f + min n (length (content f) - pos f)"
    by (simp add: file_read_def Let_def min.commute)
  then show ?thesis
    by (cases "n \<le> length (content f) - pos f") (auto simp: file_read_snd_content min_def add.commute)
qed

lemma getline_loop_found:
  "NL \<notin> set buffer \<Longrightarrow> NL \<in> set (drop (pos f) (content f)) \<Longrightarrow>
   \<exists>buf f'. getline_loop buffer f
       = (Inr (Some (buffer @ takeWhile (\<lambda>x. x \<noteq> NL) (drop (pos f) (content f)) @ [NL]), buf), f')
     \<and> content f' = content f
     \<and> buf @ drop (pos f') (content f') = tl (dropWhile (\<lambda>x. x \<noteq> NL) (drop (pos f) (content f)))"
proof (induction buffer f rule: getline_loop.induct)
  case (1 buffer f)
  define s where "s = drop (pos f) (content f)"
  define data where "data = fst (file_read 4096 f)"
  define f' where "f' = snd (file_read 4096 f)"
  have data: "data = take 4096 s" by (simp add: data_def s_def file_read_fst)
  have cont: "content f' = content f" by (simp add: f'_def file_read_snd_content)
  have rest: "drop (pos f') (content f') = drop 4096 s"
    by (simp only: f'_def s_def file_read_snd_rest)
  have s_split: "s = data @ drop 4096 s" by (simp add: data)
  from "1.prems"(2) have "s \<noteq> []" by (auto simp: s_def)
  then have ne: "data \<noteq> []" by (simp add: data)
  show ?case
  proof (cases "NL \<in> set data")
    case True
    have tw: "takeWhile (\<lambda>x. x \<noteq> NL) s = takeWhile (\<lambda>x. x \<noteq> NL) data"
      by (subst s_split) (rule takeWhile_prefix_hit [OF True])
    have dw: "tl (dropWhile (\<lambda>x. x \<noteq> NL) s) = tl (dropWhile (\<lambda>x. x \<noteq> NL) data) @ drop 4096 s"
      by (subst s_split) (simp only: dropWhile_prefix_hit [OF True] tl_dropWhile_append [OF True])
    have eq: "getline_loop buffer f
        = (Inr (Some (buffer @ takeWhile (\<lambda>x. x \<noteq> NL) data @ [NL]), tl (dropWhile (\<lambda>x. x \<noteq> NL) data)), f')"
      using True ne
      by (subst getline_loop.simps)
         (simp add: Let_def data_def [symmetric] f'_def [symmetric] find_byte_eq
            take_Suc_takeWhile drop_Suc_takeWhile)
    show ?thesis
      unfolding s_def [symmetric] using eq tw dw cont rest by simp
  next
    case False
    have in_rest: "NL \<in> set (drop (pos f') (content f'))"
      using "1.prems"(2) False s_split unfolding rest s_def [symmetric]
      by (metis Un_iff set_append)
    have nb: "NL \<notin> set (buffer @ data)" using "1.prems"(1) False by simp
    have fb: "find_byte NL data = None" using False by (simp add: find_byte_eq)
    from "1.IH" [OF data_def f'_def ne fb nb in_rest]
    obtain buf f'' where
      gl: "getline_loop (buffer @ data) f' =
        (Inr (Some ((buffer @ data) @ takeWhile (\<lambda>x. x \<noteq> NL) (drop (pos f') (content f')) @ [NL]), buf), f'')"
      and c: "content f'' = content f'"
      and r: "buf @ drop (pos f'') (content f'') = tl (dropWhile (\<lambda>x. x \<noteq> NL) (drop (pos f') (content f')))"
      by blast
    have tw: "takeWhile (\<lambda>x. x \<noteq> NL) s = data @ takeWhile (\<lambda>x. x \<noteq> NL) (drop 4096 s)"
      by (subst s_split) (rule takeWhile_prefix_miss [OF False])
    have dw: "dropWhile (\<lambda>x. x \<noteq> NL) s = dropWhile (\<lambda>x. x \<noteq> NL) (drop 4096 s)"
      by (subst s_split) (rule dropWhile_prefix_miss [OF False])
    have eq: "getline_loop buffer f = getline_loop (buffer @ data) f'"
      using ne fb
      by (subst getline_loop.simps)
         (simp add: Let_def data_def [symmetric] f'_def [symmetric])
    show ?thesis
      unfolding s_def [symmetric] using eq gl c r tw dw cont rest by simp
  qed
qed

lemma getline_loop_eof:
  "NL \<notin> set (drop (pos f) (content f)) \<Longrightarrow>
   \<exists>f'. getline_loop buffer f
       = (if buffer @ drop (pos f) (content f) = [] then Inr (None, []) else Inl RuntimeError, f')
     \<and> content f' = content f"
proof (induction buffer f rule: getline_loop.induct)
  case (1 buffer f)
  define s where "s = drop (pos f) (content f)"
  define data where "data = fst (file_read 4096 f)"
  define f' where "f' = snd (file_read 4096 f)"
  have data: "data = take 4096 s" by (simp add: data_def s_def file_read_fst)
  have cont: "content f' = content f" by (simp add: f'_def file_read_snd_content)
  have rest: "drop (pos f') (content f') = drop 4096 s"
    by (simp only: f'_def s_def file_read_snd_rest)
  have s_split: "s = data @ drop 4096 s" by (simp add: data)
  show ?case
  proof (cases "data = []")
    case True
    then have "s = []" by (simp add: data)
    moreover have "getline_loop buffer f = (if buffer = [] then Inr (None, []) else Inl RuntimeError, f')"
      using True
      by (subst getline_loop.simps)
         (simp add: Let_def data_def [symmetric] f'_def [symmetric])
    ultimately show ?thesis unfolding s_def [symmetric] using cont by simp
  next
    case False
    have nd: "NL \<notin> set data" using "1.prems" s_split unfolding s_def [symmetric]
      by (metis Un_iff set_append)
    have nr: "NL \<notin> set (drop (pos f') (content f'))"
      using "1.prems" s_split unfolding rest s_def [symmetric]
      by (metis Un_iff set_append)
    have fb: "find_byte NL data = None" using nd by (simp add: find_byte_eq)
    from "1.IH" [OF data_def f'_def False fb nr]
    obtain f'' where
      gl: "getline_loop (buffer @ data) f' =
        (if (buffer @ data) @ drop (pos f') (content f') = [] then Inr (None, []) else Inl RuntimeError, f'')"
      and c: "content f'' = content f'"
      by blast
    have eq: "getline_loop buffer f = getline_loop (buffer @ data) f'"
      using False fb
      by (subst getline_loop.simps)
         (simp add: Let_def data_def [symmetric] f'_def [symmetric])
    from False have sne: "s \<noteq> []" by (auto simp: data)
    show ?thesis
      using eq gl c cont False sne unfolding s_def [symmetric] by simp
  qed
qed

lemma getline_found:
  assumes "NL \<in> set (stream buffer f)"
  shows "\<exists>buf f'. getline buffer f
       = (Inr (Some (takeWhile (\<lambda>x. x \<noteq> NL) (stream buffer f) @ [NL]), buf), f')
     \<and> content f' = content f
     \<and> stream buf f' = tl (dropWhile (\<lambda>x. x \<noteq> NL) (stream buffer f))"
proof (cases "NL \<in> set buffer")
  case True
  then show ?thesis
    by (simp add: getline_def find_byte_eq stream_def take_Suc_takeWhile drop_Suc_takeWhile
        takeWhile_prefix_hit dropWhile_prefix_hit tl_dropWhile_append)
next
  case False
  with assms have "NL \<in> set (drop (pos f) (content f))" by (auto simp: stream_def)
  from getline_loop_found [OF False this] False show ?thesis
    by (auto simp: getline_def find_byte_eq stream_def takeWhile_prefix_miss dropWhile_prefix_miss)
qed

lemma getline_eof:
  assumes "NL \<notin> set (stream buffer f)"
  shows "\<exists>f'. getline buffer f
       = (if stream buffer f = [] then Inr (None, []) else Inl RuntimeError, f')
     \<and> content f' = content f"
proof -
  from assms have nb: "NL \<notin> set buffer" and nr: "NL \<notin> set (drop (pos f) (content f))"
    by (auto simp: stream_def)
  from getline_loop_eof [OF nr, of buffer] nb show ?thesis
    by (auto simp: getline_def find_byte_eq stream_def)
qed

lemma getline_line:
  assumes "stream buffer f = l @ NL # rest" and "NL \<notin> set l"
  shows "\<exists>buf f'. getline buffer f = (Inr (Some (l @ [NL]), buf), f')
     \<and> content f' = content f \<and> stream buf f' = rest"
proof -
  have "NL \<in> set (stream buffer f)" using assms by simp
  from getline_found [OF this] assms show ?thesis
    by (simp add: takeWhile_prefix_miss dropWhile_prefix_miss)
qed

lemma stream_seek: "stream [] (seek p f) = drop p (content f)"
  by (simp add: stream_def seek_def)

lemma content_seek: "content (seek p f) = content f"
  by (simp add: seek_def)

lemma load_spec:
  "fst (load offset f) =
     (let s = drop offset (content f) in
      if NL \<notin> set s then (if s = [] then Inl AttributeError else Inl RuntimeError)
      else if \<not> startswith s TAB then Inl CorruptedFormat
      else if TAB \<in> set (drop 1 (takeWhile (\<lambda>x. x \<noteq> NL) s)) then Inl CorruptedFormat
      else Inr (drop 1 (takeWhile (\<lambda>x. x \<noteq> NL) s)))"
proof (cases "NL \<in> set (drop offset (content f))")
  case True
  then have "NL \<in> set (stream [] (seek offset f))" by (simp add: stream_seek)
  from getline_found [OF this] obtain buf f' where
    gl: "getline [] (seek offset f) =
       (Inr (Some (takeWhile (\<lambda>x. x \<noteq> NL) (drop offset (content f)) @ [NL]), buf), f')"
    by (auto simp: stream_seek)
  define s where "s = drop offset (content f)"
  have sne: "s \<noteq> []" using True by (auto simp: s_def)
  have sw: "startswith (takeWhile (\<lambda>x. x \<noteq> NL) s @ [NL]) TAB = startswith s TAB"
    using sne by (cases s) (auto simp: startswith_def TAB_def NL_def)
  have it: "has_inner_tab (takeWhile (\<lambda>x. x \<noteq> NL) s @ [NL])
      = (TAB \<in> set (drop 1 (takeWhile (\<lambda>x. x \<noteq> NL) s)))"
    by (cases "takeWhile (\<lambda>x. x \<noteq> NL) s") (auto simp: has_inner_tab_def find_byte_eq TAB_def NL_def)
  have bl: "butlast (drop 1 (takeWhile (\<lambda>x. x \<noteq> NL) s @ [NL])) = drop 1 (takeWhile (\<lambda>x. x \<noteq> NL) s)"
    by (cases "takeWhile (\<lambda>x. x \<noteq> NL) s") (auto simp: butlast_append)
  show ?thesis
    using True gl sw it bl unfolding s_def [symmetric]
    by (simp add: load_def Let_def endswith_def s_def [symmetric])
next
  case False
  then have "NL \<notin> set (stream [] (seek offset f))" by (simp add: stream_seek)
  from getline_eof [OF this] obtain f' where
    "getline [] (seek offset f) =
       (if drop offset (content f) = [] then Inr (None, []) else Inl RuntimeError, f')"
    by (auto simp: stream_seek)
  with False show ?thesis
    by (simp add: load_def Let_def)
qed

lemma store_ok:
  assumes "TAB \<notin> set b" "NL \<notin> set b" "2 \<le> length (content f)"
  shows "store b f = (Inr (length (content f)),
            \<lparr>content = content f @ [TAB] @ b @ [NL], pos = length (content f) + length b + 2\<rparr>)"
  using assms by (simp add: store_def Let_def seek_end_def tell_def file_write_def)

lemma lt10_cases: "d < 10 \<Longrightarrow> d \<in> {0, 1, 2, 3, 4, 5, 6, 7, 8, 9 :: nat}"
  by auto

lemma digit_val_digit_char: "d < 10 \<Longrightarrow> digit_val (digit_char d) = d"
  by (drule lt10_cases) (auto simp: digit_val_def digit_char_def)

lemma is_digit_digit_char: "d < 10 \<Longrightarrow> is_digit (digit_char d)"
  by (drule lt10_cases) (auto simp: is_digit_def digit_char_def)

lemma dec_value_snoc: "dec_value (ds @ [c]) = 10 * dec_value ds + digit_val c"
  by (simp add: dec_value_def)

lemma digit_val_lt: "is_digit c \<Longrightarrow> digit_val c < 10"
  by (auto simp: is_digit_def digit_val_def)

lemma digit_char_digit_val: "is_digit c \<Longrightarrow> digit_char (digit_val c) = c"
  by (auto simp: is_digit_def digit_char_def digit_val_def)

lemma dec_value_zeros: "dec_value (replicate k (CHR ''0'') @ xs) = dec_value xs"
proof -
  have "foldl (\<lambda>acc c. 10 * acc + digit_val c) 0 (replicate k (CHR ''0'')) = 0"
    by (induction k) (simp_all add: digit_val_def)
  then show ?thesis by (simp add: dec_value_def)
qed

lemma dec_digits_small: "n < 10 \<Longrightarrow> dec_digits n = [digit_char n]"
  by (subst dec_digits.simps) simp

lemma dec_digits_large: "\<not> n < 10 \<Longrightarrow> dec_digits n = dec_digits (n div 10) @ [digit_char (n mod 10)]"
  by (subst dec_digits.simps) simp

lemma dec_digits_step:
  "0 < n \<Longrightarrow> d < 10 \<Longrightarrow> dec_digits (10 * n + d) = dec_digits n @ [digit_char d]"
  by (subst dec_digits.simps) simp

lemma dec_value_dec_digits: "dec_value (dec_digits n) = n"
proof (induction n rule: dec_digits.induct)
  case (1 n)
  show ?case
  proof (cases "n < 10")
    case True
    then show ?thesis
      by (simp add: dec_digits_small dec_value_def digit_val_digit_char)
  next
    case False
    with 1 show ?thesis
      by (simp add: dec_digits_large dec_value_snoc digit_val_digit_char)
  qed
qed

lemma dec_digits_all_digits: "list_all is_digit (dec_digits n)"
proof (induction n rule: dec_digits.induct)
  case (1 n)
  show ?case
  proof (cases "n < 10")
    case True
    then show ?thesis by (simp add: dec_digits_small is_digit_digit_char)
  next
    case False
    with 1 show ?thesis by (simp add: dec_digits_large is_digit_digit_char)
  qed
qed

lemma dec_digits_nonempty: "dec_digits n \<noteq> []"
  by (subst dec_digits.simps) simp

lemma zero_pad_dec: "zero_pad w (dec_digits n) = replicate (w - length (dec_digits n)) (CHR ''0'') @ dec_digits n"
  by (simp add: zero_pad_def)

lemma is_digit_zero: "is_digit (CHR ''0'')"
  by (simp add: is_digit_def)

lemma replicate_pred_snoc: "1 \<le> w \<Longrightarrow> replicate (w - Suc 0) x @ [x] = replicate w x"
  by (cases w) (simp_all add: replicate_append_same)

lemma zero_pad_step:
  assumes "length (dec_digits n) \<le> w" and "d < 10"
  shows "zero_pad (Suc w) (dec_digits (10 * n + d)) = zero_pad w (dec_digits n) @ [digit_char d]"
proof (cases "n = 0")
  case True
  from assms(1) True have w: "1 \<le> w" by (simp add: dec_digits_small)
  have z: "digit_char 0 = CHR ''0''" by (simp add: digit_char_def)
  from True assms(2) show ?thesis
    by (simp add: zero_pad_def dec_digits_small z replicate_pred_snoc [OF w])
next
  case False
  then have "dec_digits (10 * n + d) = dec_digits n @ [digit_char d]"
    using assms(2) by (simp add: dec_digits_step)
  with assms(1) show ?thesis
    by (simp add: zero_pad_def Suc_diff_le)
qed

lemma zero_pad_dec_value_aux:
  "ds \<noteq> [] \<Longrightarrow> list_all is_digit ds \<Longrightarrow>
   zero_pad (length ds) (dec_digits (dec_value ds)) = ds \<and> length (dec_digits (dec_value ds)) \<le> length ds"
proof (induction ds rule: rev_induct)
  case Nil
  then show ?case by simp
next
  case (snoc c ds)
  from snoc.prems have c: "is_digit c" and ds: "list_all is_digit ds" by simp_all
  show ?case
  proof (cases "ds = []")
    case True
    with c show ?thesis
      by (simp add: dec_value_def zero_pad_def dec_digits_small digit_val_lt digit_char_digit_val)
  next
    case False
    from snoc.IH [OF False ds] have ih: "zero_pad (length ds) (dec_digits (dec_value ds)) = ds"
      and len: "length (dec_digits (dec_value ds)) \<le> length ds" by simp_all
    have f: "zero_pad (length (ds @ [c])) (dec_digits (dec_value (ds @ [c]))) = ds @ [c]"
      using zero_pad_step [OF len digit_val_lt [OF c]] ih c
      by (simp add: dec_value_snoc digit_char_digit_val)
    have "length (zero_pad (length (ds @ [c])) (dec_digits (dec_value (ds @ [c])))) = length (ds @ [c])"
      by (simp only: f)
    then have "length (dec_digits (dec_value (ds @ [c]))) \<le> length (ds @ [c])"
      by (auto simp: zero_pad_def)
    with f show ?thesis by (rule conjI)
  qed
qed

lemma format_0d_nat: "format_0d (int n) w = zero_pad w (dec_digits n)"
  by (simp add: format_0d_def)

lemma dec_value_format_0d: "dec_value (format_0d (int n) w) = n"
  by (simp add: format_0d_nat zero_pad_def dec_value_zeros dec_value_dec_digits)

lemma format_0d_all_digits: "list_all is_digit (format_0d (int n) w)"
  using dec_digits_all_digits [of n] by (auto simp: format_0d_nat zero_pad_def list_all_iff is_digit_zero)

lemma format_0d_nonempty: "format_0d n w \<noteq> []"
  by (simp add: format_0d_def zero_pad_def dec_digits_nonempty)

lemma length_format_0d: "length (format_0d (int n) w) = max w (length (dec_digits n))"
  by (simp add: format_0d_nat zero_pad_def)

lemma format_0d_dec_value:
  "isdigit ds \<Longrightarrow> format_0d (int (dec_value ds)) (length ds) = ds"
  using zero_pad_dec_value_aux [of ds] by (simp add: isdigit_def format_0d_nat)

lemma parse_current_offset_line:
  "parse_current_offset (ds @ [NL]) =
     (if 1 \<le> length ds \<and> length ds \<le> 15 \<and> list_all is_digit ds then Inr (dec_value ds)
      else Inl CorruptedFormat)"
  by (auto simp: parse_current_offset_def MAX_HEADER_def endswith_def isdigit_def py_int_def)

lemma NL_notin_IDENTIFIER: "NL \<notin> set IDENTIFIER"
  by (simp add: IDENTIFIER_def NL_def)

lemma length_IDENTIFIER: "length IDENTIFIER = 36"
  by (simp add: IDENTIFIER_def)

lemma header_lines:
  assumes hdr: "content f = IDENTIFIER @ NL # l2 @ NL # rest" and nl: "NL \<notin> set l2"
  shows "\<exists>buf f1 buf2 f2.
      getline [] (seek 0 f) = (Inr (Some (IDENTIFIER @ [NL]), buf), f1)
    \<and> getline buf f1 = (Inr (Some (l2 @ [NL]), buf2), f2)
    \<and> content f2 = content f"
proof -
  have "stream [] (seek 0 f) = IDENTIFIER @ NL # (l2 @ NL # rest)"
    by (simp add: stream_seek hdr)
  from getline_line [OF this NL_notin_IDENTIFIER] obtain buf f1 where
    g1: "getline [] (seek 0 f) = (Inr (Some (IDENTIFIER @ [NL]), buf), f1)"
    and c1: "content f1 = content (seek 0 f)" and s1: "stream buf f1 = l2 @ NL # rest"
    by blast
  from getline_line [OF s1 nl] obtain buf2 f2 where
    g2: "getline buf f1 = (Inr (Some (l2 @ [NL]), buf2), f2)"
    and c2: "content f2 = content f1"
    by blast
  from g1 g2 c1 c2 show ?thesis by (simp add: content_seek)
qed

lemma get_current_header:
  assumes hdr: "content f = IDENTIFIER @ NL # l2 @ NL # rest" and nl: "NL \<notin> set l2"
  shows "fst (get_current f) = parse_current_offset (l2 @ [NL])"
    and "content (snd (get_current f)) = content f"
proof -
  from header_lines [OF hdr nl] obtain buf f1 buf2 f2 where
    "getline [] (seek 0 f) = (Inr (Some (IDENTIFIER @ [NL]), buf), f1)"
    "getline buf f1 = (Inr (Some (l2 @ [NL]), buf2), f2)"
    "content f2 = content f"
    by blast
  then show "fst (get_current f) = parse_current_offset (l2 @ [NL])"
    and "content (snd (get_current f)) = content f"
    by (simp_all add: get_current_def)
qed

lemma write_root_line:
  assumes hdr: "content f2 = IDENTIFIER @ NL # l2 @ NL # rest"
    and len: "length new = length l2"
  shows "content (file_write (new @ [NL]) (seek (length (IDENTIFIER @ [NL])) f2))
       = IDENTIFIER @ NL # new @ NL # rest"
  using len by (simp add: file_write_def seek_def hdr)

lemma set_current_header:
  assumes hdr: "content f = IDENTIFIER @ NL # l2 @ NL # rest" and nl: "NL \<notin> set l2"
  shows "fst (set_current offset lease f) =
      (case parse_current_offset (l2 @ [NL]) of
         Inl e \<Rightarrow> Inl e
       | Inr cur \<Rightarrow>
           if (case lease of None \<Rightarrow> False | Some l \<Rightarrow> int cur \<noteq> l) then Inl ConcurrencyError
           else if length (format_0d offset (length l2)) \<noteq> length l2 then Inl AssertionError
           else Inr ())"
    and "content (snd (set_current offset lease f)) =
      (if fst (set_current offset lease f) = Inr ()
       then IDENTIFIER @ NL # format_0d offset (length l2) @ NL # rest
       else content f)"
proof -
  from header_lines [OF hdr nl] obtain buf f1 buf2 f2 where
    g1: "getline [] (seek 0 f) = (Inr (Some (IDENTIFIER @ [NL]), buf), f1)"
    and g2: "getline buf f1 = (Inr (Some (l2 @ [NL]), buf2), f2)"
    and c2: "content f2 = content f"
    by blast
  have hdr2: "content f2 = IDENTIFIER @ NL # l2 @ NL # rest" using c2 hdr by simp
  show "fst (set_current offset lease f) =
      (case parse_current_offset (l2 @ [NL]) of
         Inl e \<Rightarrow> Inl e
       | Inr cur \<Rightarrow>
           if (case lease of None \<Rightarrow> False | Some l \<Rightarrow> int cur \<noteq> l) then Inl ConcurrencyError
           else if length (format_0d offset (length l2)) \<noteq> length l2 then Inl AssertionError
           else Inr ())"
    using g1 g2 by (simp add: set_current_def Let_def split: sum.splits option.splits)
  show "content (snd (set_current offset lease f)) =
      (if fst (set_current offset lease f) = Inr ()
       then IDENTIFIER @ NL # format_0d offset (length l2) @ NL # rest
       else content f)"
    using g1 g2 c2 write_root_line [OF hdr2]
    by (simp add: set_current_def Let_def split: sum.splits option.splits)
qed

lemma split_at_NL:
  "NL \<in> set xs \<Longrightarrow> xs = takeWhile (\<lambda>x. x \<noteq> NL) xs @ NL # tl (dropWhile (\<lambda>x. x \<noteq> NL) xs)"
  by (induction xs) auto

lemma NL_notin_takeWhile: "NL \<notin> set (takeWhile (\<lambda>x. x \<noteq> NL) xs)"
  by (induction xs) auto

lemma get_current_success:
  assumes ok: "fst (get_current f) = Inr r"
  shows "\<exists>ds rest. content f = IDENTIFIER @ NL # ds @ NL # rest \<and> NL \<notin> set ds
      \<and> 1 \<le> length ds \<and> length ds \<le> 15 \<and> list_all is_digit ds \<and> dec_value ds = r"
proof -
  have s0: "stream [] (seek 0 f) = content f" by (simp add: stream_seek)
  have in1: "NL \<in> set (content f)"
  proof (rule ccontr)
    assume "NL \<notin> set (content f)"
    then have "NL \<notin> set (stream [] (seek 0 f))" by (simp add: s0)
    from getline_eof [OF this] ok show False
      by (auto simp: get_current_def split: if_splits)
  qed
  define l1 where "l1 = takeWhile (\<lambda>x. x \<noteq> NL) (content f)"
  define s2 where "s2 = tl (dropWhile (\<lambda>x. x \<noteq> NL) (content f))"
  have c1: "content f = l1 @ NL # s2"
    unfolding l1_def s2_def by (rule split_at_NL [OF in1])
  from in1 have "NL \<in> set (stream [] (seek 0 f))" by (simp add: s0)
  from getline_found [OF this] obtain buf f1 where
    g1: "getline [] (seek 0 f) = (Inr (Some (l1 @ [NL]), buf), f1)"
    and st1: "stream buf f1 = s2"
    unfolding s0 l1_def s2_def by blast
  from ok g1 have id: "l1 = IDENTIFIER"
    by (auto simp: get_current_def split: if_splits)
  from ok g1 id have ok2: "fst (case getline buf f1 of
                  (Inl e, f2) \<Rightarrow> (Inl e, f2)
                | (Inr (None, buffer2), f2) \<Rightarrow> (Inl AssertionError, f2)
                | (Inr (Some line2, buffer2), f2) \<Rightarrow> (parse_current_offset line2, f2)) = Inr r"
    by (simp add: get_current_def)
  have in2: "NL \<in> set s2"
  proof (rule ccontr)
    assume "NL \<notin> set s2"
    then have "NL \<notin> set (stream buf f1)" by (simp add: st1)
    from getline_eof [OF this] ok2 show False
      by (auto split: if_splits)
  qed
  define ds where "ds = takeWhile (\<lambda>x. x \<noteq> NL) s2"
  define rest where "rest = tl (dropWhile (\<lambda>x. x \<noteq> NL) s2)"
  have c2: "s2 = ds @ NL # rest"
    unfolding ds_def rest_def by (rule split_at_NL [OF in2])
  have nl: "NL \<notin> set ds" unfolding ds_def by (rule NL_notin_takeWhile)
  from in2 have "NL \<in> set (stream buf f1)" by (simp add: st1)
  from getline_found [OF this] obtain buf2 f2 where
    g2: "getline buf f1 = (Inr (Some (ds @ [NL]), buf2), f2)"
    unfolding st1 ds_def by blast
  from ok2 g2 have "parse_current_offset (ds @ [NL]) = Inr r" by simp
  then have "1 \<le> length ds \<and> length ds \<le> 15 \<and> list_all is_digit ds \<and> dec_value ds = r"
    by (simp add: parse_current_offset_line split: if_splits)
  with c1 c2 id nl show ?thesis by auto
qed


lemma get_current_unterminated:
  assumes hdr: "content f = IDENTIFIER @ NL # l2" and nl: "NL \<notin> set l2"
  shows "fst (get_current f) = (if l2 = [] then Inl AssertionError else Inl RuntimeError)"
proof -
  have "stream [] (seek 0 f) = IDENTIFIER @ NL # l2"
    by (simp add: stream_seek hdr)
  from getline_line [OF this NL_notin_IDENTIFIER] obtain buf f1 where
    g1: "getline [] (seek 0 f) = (Inr (Some (IDENTIFIER @ [NL]), buf), f1)"
    and s1: "stream buf f1 = l2"
    by blast
  from nl s1 have "NL \<notin> set (stream buf f1)" by simp
  from getline_eof [OF this] obtain f2 where
    g2: "getline buf f1 = (if l2 = [] then Inr (None, []) else Inl RuntimeError, f2)"
    by (auto simp: s1)
  show ?thesis
    by (cases "l2 = []") (simp_all add: get_current_def g1 g2)
qed

section \<open>Properties of the record store\<close>





lemma set_current_header_pos:
  assumes hdr: "content f = IDENTIFIER @ NL # l2 @ NL # rest" and nl: "NL \<notin> set l2"
    and ok: "fst (set_current off lease f) = Inr ()"
  shows "pos (snd (set_current off lease f)) = length IDENTIFIER + length l2 + 2"
proof -
  from header_lines [OF hdr nl] obtain buf f1 buf2 f2 where
    g1: "getline [] (seek 0 f) = (Inr (Some (IDENTIFIER @ [NL]), buf), f1)"
    and g2: "getline buf f1 = (Inr (Some (l2 @ [NL]), buf2), f2)"
    by blast
  from ok show ?thesis
    using g1 g2
    by (simp add: set_current_def Let_def file_write_def seek_def split: sum.splits option.splits if_splits)
qed

lemma commit_root_unchanged:
  assumes hdr: "content (storage s) = IDENTIFIER @ NL # ds @ NL # rest" and nl: "NL \<notin> set ds"
    and dg: "list_all is_digit ds" and l1: "1 \<le> length ds" and l2: "length ds \<le> 15"
    and r: "int (dec_value ds) = current_root s"
  shows "fst (commit_root (current_root s) s) = Inr (current_root s)"
    and "content (storage (snd (commit_root (current_root s) s))) = content (storage s)"
    and "current_root (snd (commit_root (current_root s) s)) = current_root s"
    and "pos (storage (snd (commit_root (current_root s) s))) = length IDENTIFIER + length ds + 2"
proof -
  have isd: "isdigit ds" using dg l1 by (auto simp: isdigit_def)
  have fmt: "format_0d (current_root s) (length ds) = ds"
    using format_0d_dec_value [OF isd] r by simp
  have p: "parse_current_offset (ds @ [NL]) = Inr (dec_value ds)"
    using dg l1 l2 by (simp add: parse_current_offset_line)
  have ok: "fst (set_current (current_root s) (Some (current_root s)) (storage s)) = Inr ()"
    using set_current_header(1) [OF hdr nl, of "current_root s" "Some (current_root s)"] p r fmt
    by simp
  have c: "content (snd (set_current (current_root s) (Some (current_root s)) (storage s)))
      = content (storage s)"
    using set_current_header(2) [OF hdr nl, of "current_root s" "Some (current_root s)"] ok fmt hdr
    by simp
  have ps: "pos (snd (set_current (current_root s) (Some (current_root s)) (storage s)))
      = length IDENTIFIER + length ds + 2"
    by (rule set_current_header_pos [OF hdr nl ok])
  obtain u f' where sc: "set_current (current_root s) (Some (current_root s)) (storage s) = (Inr u, f')"
    using ok by (cases "set_current (current_root s) (Some (current_root s)) (storage s)") auto
  show "fst (commit_root (current_root s) s) = Inr (current_root s)"
    and "content (storage (snd (commit_root (current_root s) s))) = content (storage s)"
    and "current_root (snd (commit_root (current_root s) s)) = current_root s"
    and "pos (storage (snd (commit_root (current_root s) s))) = length IDENTIFIER + length ds + 2"
    using sc c ps by (simp_all add: commit_root_def)
qed

lemma content_open_in_memory:
  "content open_in_memory = IDENTIFIER @ NL # ''000000000000000'' @ NL # []"
  by (simp add: open_in_memory_def init_def file_write_def seek_def format_0d_def zero_pad_def
      dec_digits_small digit_char_def DEFAULT_HEADER_def numeral_eq_Suc)

lemma get_current_open_in_memory: "fst (get_current open_in_memory) = Inr 0"
proof -
  have nl: "NL \<notin> set ''000000000000000''" by (simp add: NL_def)
  have p: "parse_current_offset (''000000000000000'' @ [NL]) = Inr 0"
    using parse_current_offset_line [of "''000000000000000''"]
    by (simp add: is_digit_def dec_value_def digit_val_def)
  from get_current_header(1) [OF content_open_in_memory nl] p show ?thesis by simp
qed

lemma new_store_open_in_memory:
  "new_store open_in_memory
     = Inr \<lparr>storage = snd (get_current open_in_memory), current_root = 0, root = RootOffset 0\<rparr>"
  using get_current_open_in_memory
  by (cases "get_current open_in_memory") (simp add: new_store_def)

lemma record_value_ok:
  assumes "clean_dumps d" and "2 \<le> length (content f)"
  shows "\<exists>f'. record_value d k v f = (Inr (length (content f)), f')
      \<and> content f' = content f @ [TAB] @ kind_value k @ d v @ [NL]"
proof -
  from assms(1) have a: "TAB \<notin> set (kind_value k @ d v)" and b: "NL \<notin> set (kind_value k @ d v)"
    by (auto simp: clean_dumps_def kind_value_def TAB_def NL_def split: kind.splits)
  from store_ok [OF a b assms(2)] show ?thesis
    by (simp add: record_value_def)
qed

lemma persist_ok_aux:
  "(clean_dumps d \<longrightarrow> 2 \<le> length (content f) \<longrightarrow> item_offset it = None \<longrightarrow>
     (\<exists>it' f' ex. persist d it f = (None, it', f') \<and> item_offset it' \<noteq> None
        \<and> content f' = content f @ ex))"
  "(clean_dumps d \<longrightarrow> 2 \<le> length (content g) \<longrightarrow>
     (\<exists>dn offs f' ex. persist_entries d es g = (None, dn, offs, f') \<and> content f' = content g @ ex))"
proof (induction d it f and d es g rule: persist_persist_entries.induct)
  case (1 dumps off v f)
  show ?case
  proof (intro impI)
    assume c: "clean_dumps dumps" and l: "2 \<le> length (content f)" and o: "item_offset (Leaf off v) = None"
    from record_value_ok [OF c l, of Kind_leaf v] obtain f' where
      "record_value dumps Kind_leaf v f = (Inr (length (content f)), f')"
      "content f' = content f @ [TAB] @ kind_value Kind_leaf @ dumps v @ [NL]"
      by blast
    with o show "\<exists>it' f' ex. persist dumps (Leaf off v) f = (None, it', f') \<and> item_offset it' \<noteq> None
        \<and> content f' = content f @ ex"
      by (simp add: persist.simps)
  qed
next
  case (2 dumps off es f)
  show ?case
  proof (intro impI)
    assume c: "clean_dumps dumps" and l: "2 \<le> length (content f)"
    from 2 c l obtain dn offs f' ex where
      pe: "persist_entries dumps (sort_key fst es) f = (None, dn, offs, f')"
      and cf: "content f' = content f @ ex"
      by blast
    from cf l have l': "2 \<le> length (content f')" by simp
    from record_value_ok [OF c l', of Kind_node "node_json offs"] obtain f'' where
      "record_value dumps Kind_node (node_json offs) f' = (Inr (length (content f')), f'')"
      "content f'' = content f' @ [TAB] @ kind_value Kind_node @ dumps (node_json offs) @ [NL]"
      by blast
    with pe cf show "\<exists>it' f' ex. persist dumps (Node off es) f = (None, it', f') \<and> item_offset it' \<noteq> None
        \<and> content f' = content f @ ex"
      by (simp add: persist.simps)
  qed
next
  case (3 dumps f)
  show ?case by (simp add: persist_entries.simps)
next
  case (4 dumps key off rest f)
  then show ?case by (auto simp: persist_entries.simps)
next
  case (5 dumps key c rest f)
  show ?case
  proof (intro impI)
    assume cl: "clean_dumps dumps" and l: "2 \<le> length (content f)"
    have "\<exists>c' f1 ex1. (if item_offset c = None then persist dumps c f else (None, c, f)) = (None, c', f1)
        \<and> content f1 = content f @ ex1"
    proof (cases "item_offset c = None")
      case True
      with "5.IH"(1) cl l show ?thesis by auto
    next
      case False
      then have "(if item_offset c = None then persist dumps c f else (None, c, f)) = (None, c, f)"
        by (rule if_not_P)
      moreover have "content f = content f @ []" by simp
      ultimately show ?thesis by blast
    qed
    then obtain c' f1 ex1 where
      st: "(if item_offset c = None then persist dumps c f else (None, c, f)) = (None, c', f1)"
      and cf1: "content f1 = content f @ ex1"
      by blast
    from cf1 l have l1: "2 \<le> length (content f1)" by simp
    from "5.IH"(2) [OF st [symmetric] refl refl] cl l1 obtain dn offs f' ex where
      pe: "persist_entries dumps rest f1 = (None, dn, offs, f')"
      and cf: "content f' = content f1 @ ex"
      by blast
    from st pe cf cf1
    show "\<exists>dn offs f' ex. persist_entries dumps ((key, Child c) # rest) f = (None, dn, offs, f')
        \<and> content f' = content f @ ex"
      by (simp add: persist_entries.simps)
  qed
qed

lemma persist_ok:
  assumes "clean_dumps d" and "2 \<le> length (content f)" and "item_offset it = None"
  shows "\<exists>it' f' ex off. persist d it f = (None, it', f') \<and> item_offset it' = Some off
        \<and> content f' = content f @ ex"
  using persist_ok_aux(1) [of d f it] assms by auto

lemma commit_root_header:
  assumes hdr: "content (storage s) = IDENTIFIER @ NL # ds @ NL # rest" and nl: "NL \<notin> set ds"
    and dg: "list_all is_digit ds" and l1: "1 \<le> length ds" and l2: "length ds \<le> 15"
  shows "fst (commit_root off s) =
           (if int (dec_value ds) \<noteq> current_root s then Inl ConcurrencyError
            else if length (format_0d off (length ds)) \<noteq> length ds then Inl AssertionError
            else Inr off)"
    and "content (storage (snd (commit_root off s))) =
           (if fst (commit_root off s) = Inr off
            then IDENTIFIER @ NL # format_0d off (length ds) @ NL # rest
            else content (storage s))"
    and "fst (commit_root off s) = Inr off \<Longrightarrow> current_root (snd (commit_root off s)) = off"
proof -
  have p: "parse_current_offset (ds @ [NL]) = Inr (dec_value ds)"
    using dg l1 l2 by (simp add: parse_current_offset_line)
  note sc = set_current_header [OF hdr nl, of off "Some (current_root s)", unfolded p]
  obtain r f' where eq: "set_current off (Some (current_root s)) (storage s) = (r, f')"
    by (cases "set_current off (Some (current_root s)) (storage s)")
  show "fst (commit_root off s) =
           (if int (dec_value ds) \<noteq> current_root s then Inl ConcurrencyError
            else if length (format_0d off (length ds)) \<noteq> length ds then Inl AssertionError
            else Inr off)"
    using sc(1) eq by (cases r) (auto simp: commit_root_def split: if_splits)
  show "content (storage (snd (commit_root off s))) =
           (if fst (commit_root off s) = Inr off
            then IDENTIFIER @ NL # format_0d off (length ds) @ NL # rest
            else content (storage s))"
    using sc eq by (cases r) (auto simp: commit_root_def split: if_splits)
  show "fst (commit_root off s) = Inr off \<Longrightarrow> current_root (snd (commit_root off s)) = off"
    using eq by (cases r) (auto simp: commit_root_def)
qed

text \<open>The cases of \<open>commit\<close>: an offset to commit, on a file that only grew.\<close>

lemma commit_cases:
  assumes cl: "clean_dumps dumps" and len: "2 \<le> length (content (storage s))"
    and rt: "root s \<noteq> RootNone"
  shows "\<exists>off s1 ex. commit dumps s = commit_root off s1
      \<and> content (storage s1) = content (storage s) @ ex \<and> current_root s1 = current_root s"
proof (cases "root s")
  case RootNone
  with rt show ?thesis by simp
next
  case (RootOffset off)
  then have "commit dumps s = commit_root off s" by (simp add: commit_def)
  moreover have "content (storage s) = content (storage s) @ []" by simp
  ultimately show ?thesis by blast
next
  case (RootItem it)
  show ?thesis
  proof (cases "item_offset it")
    case (Some off)
    with RootItem have "commit dumps s = commit_root (int_of off) s" by (simp add: commit_def)
    moreover have "content (storage s) = content (storage s) @ []" by simp
    ultimately show ?thesis by blast
  next
    case None
    from persist_ok [OF cl len None] obtain it' f' ex off where
      p: "persist dumps it (storage s) = (None, it', f')" and o: "item_offset it' = Some off"
      and c: "content f' = content (storage s) @ ex"
      by blast
    from RootItem None p o
    have "commit dumps s = commit_root (int_of off) (s\<lparr>storage := f', root := RootItem it'\<rparr>)"
      by (simp add: commit_def)
    with c show ?thesis
      by (intro exI [of _ "int_of off"] exI [of _ "s\<lparr>storage := f', root := RootItem it'\<rparr>"] exI [of _ ex]) simp
  qed
qed

lemma digits_no_NL: "list_all is_digit ds \<Longrightarrow> NL \<notin> set ds"
  by (induction ds) (auto simp: is_digit_def NL_def)

lemma length_header: "2 \<le> length (IDENTIFIER @ NL # ds @ NL # rest)"
  by simp

lemma commit_dirty_leaf_in_memory:
  "fst (commit (\<lambda>v. ''1'') \<lparr>storage = open_in_memory, current_root = 0, root = RootItem (Leaf None JNull)\<rparr>)
     = Inr 53"
proof -
  let ?d = "\<lambda>v :: json. ''1''"
  have cl: "clean_dumps ?d" by (simp add: clean_dumps_def TAB_def NL_def)
  have len: "length (content open_in_memory) = 53"
    by (simp add: content_open_in_memory IDENTIFIER_def)
  then have l2: "2 \<le> length (content open_in_memory)" by simp
  from record_value_ok [OF cl l2, of Kind_leaf JNull] obtain f1 where
    rv: "record_value ?d Kind_leaf JNull open_in_memory = (Inr 53, f1)"
    and c1: "content f1 = content open_in_memory @ [TAB] @ kind_value Kind_leaf @ ''1'' @ [NL]"
    by (auto simp: len)
  let ?s1 = "\<lparr>storage = f1, current_root = 0, root = RootItem (Leaf (Some (PyInt 53)) JNull)\<rparr>"
  have cm: "commit ?d \<lparr>storage = open_in_memory, current_root = 0, root = RootItem (Leaf None JNull)\<rparr>
      = commit_root 53 ?s1"
    using rv by (simp add: commit_def persist.simps)
  have hdr: "content (storage ?s1)
      = IDENTIFIER @ NL # ''000000000000000'' @ NL # ([TAB] @ kind_value Kind_leaf @ ''1'' @ [NL])"
    by (simp add: c1 content_open_in_memory)
  have nl: "NL \<notin> set ''000000000000000''" by (simp add: NL_def)
  have dg: "list_all is_digit ''000000000000000''" by (simp add: is_digit_def)
  have dv: "dec_value ''000000000000000'' = 0" by (simp add: dec_value_def digit_val_def)
  have l15: "length ''000000000000000'' = (15::nat)" by simp
  have f15: "length (format_0d 53 15) = 15"
    using length_format_0d [of 53 15] by (simp add: dec_digits.simps)
  have fl: "length (format_0d 53 (length ''000000000000000'')) = length ''000000000000000''"
    unfolding l15 by (rule f15)
  from commit_root_header(1) [OF hdr nl dg, of 53] dv fl show ?thesis
    unfolding cm by simp
qed

subsection \<open>Reading leaves a store unmodified\<close>

















section \<open>Properties of scan\<close>

lemma readline_line:
  assumes "drop (pos f) (content f) = l @ NL # rest" and "NL \<notin> set l"
  shows "readline f = (l @ [NL], f\<lparr>pos := pos f + length l + 1\<rparr>)"
  using assms by (simp add: readline_def Let_def find_byte_eq takeWhile_prefix_miss)

lemma readline_tail:
  assumes "NL \<notin> set (drop (pos f) (content f))"
  shows "readline f = (drop (pos f) (content f), f\<lparr>pos := pos f + length (drop (pos f) (content f))\<rparr>)"
  using assms by (simp add: readline_def Let_def find_byte_eq)

lemma drop_after_line:
  assumes "drop p xs = l @ NL # rest"
  shows "drop (p + length l + 1) xs = rest"
proof -
  have "drop (p + length l + 1) xs = drop (length l + 1) (drop p xs)"
    by (simp add: add.commute)
  also have "\<dots> = rest" by (simp add: assms)
  finally show ?thesis .
qed

lemma scan_loop_end:
  assumes "drop (pos f) (content f) = []"
  shows "fst (scan_loop f) = Inr ()"
  using assms readline_tail [of f]
  by (subst scan_loop.simps) (simp add: Let_def)

lemma scan_loop_unterminated:
  assumes "NL \<notin> set (drop (pos f) (content f))" and "drop (pos f) (content f) \<noteq> []"
  shows "fst (scan_loop f) = Inl CorruptedFormat"
proof -
  have "\<not> endswith (drop (pos f) (content f)) NL"
    using assms(1) last_in_set [of "drop (pos f) (content f)"] unfolding endswith_def by metis
  then show ?thesis
    using assms(2) readline_tail [OF assms(1)]
    by (subst scan_loop.simps) (simp add: Let_def)
qed

lemma scan_loop_bad_line:
  assumes "drop (pos f) (content f) = l @ NL # rest" and "NL \<notin> set l"
    and "l = [] \<or> hd l \<noteq> TAB \<or> TAB \<in> set (tl l)"
  shows "fst (scan_loop f) = Inl CorruptedFormat"
proof -
  have "\<not> startswith (l @ [NL]) TAB \<or> has_inner_tab (l @ [NL])"
    using assms(3) by (cases l) (auto simp: startswith_def has_inner_tab_def find_byte_eq TAB_def NL_def)
  then show ?thesis
    using readline_line [OF assms(1,2)]
    by (subst scan_loop.simps) (auto simp: Let_def endswith_def)
qed

lemma scan_loop_good_line:
  assumes "drop (pos f) (content f) = frame r @ rest" and "TAB \<notin> set r" and "NL \<notin> set r"
  shows "scan_loop f = scan_loop (f\<lparr>pos := pos f + length (frame r)\<rparr>)"
proof -
  have d: "drop (pos f) (content f) = (TAB # r) @ NL # rest" using assms(1) by (simp add: frame_def)
  have n: "NL \<notin> set (TAB # r)" using assms(3) by (simp add: TAB_def NL_def)
  have a: "startswith ((TAB # r) @ [NL]) TAB" by (simp add: startswith_def)
  have b: "\<not> has_inner_tab ((TAB # r) @ [NL])"
    using assms(2) by (simp add: has_inner_tab_def find_byte_eq TAB_def NL_def)
  have c: "endswith ((TAB # r) @ [NL]) NL" by (simp add: endswith_def)
  show ?thesis
    using readline_line [OF d n] a b c
    by (subst scan_loop.simps) (simp add: Let_def frame_def del: append.simps)
qed

lemma scan_loop_frames:
  assumes "drop (pos f) (content f) = concat (map frame recs) @ rest"
    and "\<forall>r\<in>set recs. TAB \<notin> set r \<and> NL \<notin> set r"
  shows "scan_loop f = scan_loop (f\<lparr>pos := pos f + length (concat (map frame recs))\<rparr>)"
  using assms
proof (induction recs arbitrary: f)
  case Nil
  then show ?case by simp
next
  case (Cons r recs)
  from Cons.prems have d: "drop (pos f) (content f) = frame r @ (concat (map frame recs) @ rest)"
    and cr: "TAB \<notin> set r" "NL \<notin> set r" and crs: "\<forall>r\<in>set recs. TAB \<notin> set r \<and> NL \<notin> set r"
    by simp_all
  let ?f = "f\<lparr>pos := pos f + length (frame r)\<rparr>"
  have "drop (pos ?f) (content ?f) = drop (length (frame r)) (drop (pos f) (content f))"
    by (simp add: add.commute)
  then have d': "drop (pos ?f) (content ?f) = concat (map frame recs) @ rest"
    by (simp add: d)
  from scan_loop_good_line [OF d cr] Cons.IH [OF d' crs] show ?case
    by (simp add: add.assoc)
qed

lemma readline_first:
  assumes "content f = IDENTIFIER @ NL # tail"
  shows "readline (seek 0 f) = (IDENTIFIER @ [NL], f\<lparr>pos := length IDENTIFIER + 1\<rparr>)"
proof -
  have "drop (pos (seek 0 f)) (content (seek 0 f)) = IDENTIFIER @ NL # tail"
    by (simp add: seek_def assms)
  from readline_line [OF this NL_notin_IDENTIFIER] show ?thesis
    by (simp add: seek_def)
qed

lemma scan_root_line:
  assumes "content f = IDENTIFIER @ NL # l2 @ NL # rest" and "NL \<notin> set l2"
  shows "fst (scan f) =
     (case parse_current_offset (l2 @ [NL]) of
        Inl e \<Rightarrow> Inl e
      | Inr r \<Rightarrow> fst (scan_loop (f\<lparr>pos := length IDENTIFIER + 1 + length l2 + 1\<rparr>)))"
proof -
  define f1 where "f1 = f\<lparr>pos := length IDENTIFIER + 1\<rparr>"
  define f2 where "f2 = f\<lparr>pos := length IDENTIFIER + 1 + length l2 + 1\<rparr>"
  have r1: "readline (seek 0 f) = (IDENTIFIER @ [NL], f1)"
    unfolding f1_def by (rule readline_first [OF assms(1)])
  have "drop (pos f1) (content f1) = l2 @ NL # rest" by (simp add: f1_def assms(1))
  from readline_line [OF this assms(2)]
  have r2: "readline f1 = (l2 @ [NL], f2)"
    by (simp add: f1_def f2_def)
  have "fst (scan f) =
     (case parse_current_offset (l2 @ [NL]) of Inl e \<Rightarrow> Inl e | Inr r \<Rightarrow> fst (scan_loop f2))"
    by (simp add: scan_def Let_def r1 r2 endswith_def split: sum.splits)
  then show ?thesis by (simp only: f2_def)
qed

lemma scan_root_unterminated:
  assumes "content f = IDENTIFIER @ NL # l2" and "NL \<notin> set l2"
  shows "fst (scan f) = Inl CorruptedFormat"
proof -
  define f1 where "f1 = f\<lparr>pos := length IDENTIFIER + 1\<rparr>"
  have r1: "readline (seek 0 f) = (IDENTIFIER @ [NL], f1)"
    unfolding f1_def by (rule readline_first [OF assms(1)])
  have d: "drop (pos f1) (content f1) = l2" by (simp add: f1_def assms(1))
  then have "NL \<notin> set (drop (pos f1) (content f1))" using assms(2) by simp
  from readline_tail [OF this] have r2: "fst (readline f1) = l2" by (simp only: d fst_conv)
  have "\<not> endswith l2 NL"
    using assms(2) last_in_set [of l2] unfolding endswith_def by metis
  then show ?thesis
    by (simp add: scan_def Let_def r1 r2)
qed

lemma scan_file_image:
  assumes "content f = file_image ds recs" and "good_image ds recs"
  shows "fst (scan f) = Inr ()"
proof -
  from assms(2) have len: "length ds = 15" and dg: "list_all is_digit ds"
    and cl: "\<forall>r\<in>set recs. TAB \<notin> set r \<and> NL \<notin> set r"
    by (simp_all add: good_image_def)
  have nl: "NL \<notin> set ds" using dg by (rule digits_no_NL)
  have c: "content f = IDENTIFIER @ NL # ds @ NL # concat (map frame recs)"
    using assms(1) by (simp add: file_image_def)
  have p: "parse_current_offset (ds @ [NL]) = Inr (dec_value ds)"
    using len dg by (simp add: parse_current_offset_line)
  let ?f2 = "f\<lparr>pos := length IDENTIFIER + 1 + length ds + 1\<rparr>"
  have d2: "drop (pos ?f2) (content ?f2) = concat (map frame recs) @ []"
    by (simp add: c)
  have "drop (pos ?f2 + length (concat (map frame recs))) (content ?f2) = []"
    by (simp add: c)
  then have e: "fst (scan_loop (?f2\<lparr>pos := pos ?f2 + length (concat (map frame recs))\<rparr>)) = Inr ()"
    by (intro scan_loop_end) simp
  from scan_root_line [OF c nl] p scan_loop_frames [OF d2 cl] e show ?thesis
    by simp
qed

lemma store_content:
  "content (snd (store b f)) =
     (if 2 \<le> length (content f) \<and> TAB \<notin> set b \<and> NL \<notin> set b then content f @ frame b
      else content f)"
  by (simp add: store_def Let_def seek_end_def tell_def file_write_def frame_def)

lemma length_file_image: "2 \<le> length (file_image ds recs)"
  by (simp add: file_image_def)

lemma file_image_snoc: "file_image ds recs @ frame b = file_image ds (recs @ [b])"
  by (simp add: file_image_def)

lemma do_call_image:
  assumes "content f = file_image ds recs" and "good_image ds recs" and "legal c"
  shows "\<exists>ds' recs'. content (do_call c f) = file_image ds' recs' \<and> good_image ds' recs'"
proof (cases c)
  case (Call_store b)
  show ?thesis
  proof (cases "TAB \<notin> set b \<and> NL \<notin> set b")
    case True
    then have "content (do_call c f) = file_image ds (recs @ [b])"
      using assms(1) Call_store by (simp add: store_content length_file_image file_image_snoc)
    moreover have "good_image ds (recs @ [b])"
      using assms(2) True by (simp add: good_image_def)
    ultimately show ?thesis by blast
  next
    case False
    then have "content (do_call c f) = file_image ds recs"
      using assms(1) Call_store by (auto simp: store_content)
    with assms(2) show ?thesis by blast
  qed
next
  case (Call_set_current off' lease)
  with assms(3) obtain off where off: "off' = int off"
    using nonneg_int_cases [of off'] by auto
  note Call_set_current = Call_set_current [unfolded off]
  from assms(2) have len: "length ds = 15" and dg: "list_all is_digit ds"
    by (simp_all add: good_image_def)
  have nl: "NL \<notin> set ds" using dg by (rule digits_no_NL)
  have c: "content f = IDENTIFIER @ NL # ds @ NL # concat (map frame recs)"
    using assms(1) by (simp add: file_image_def)
  have p: "parse_current_offset (ds @ [NL]) = Inr (dec_value ds)"
    using len dg by (simp add: parse_current_offset_line)
  note sc = set_current_header [OF c nl, of "int off" lease, unfolded p]
  show ?thesis
  proof (cases "fst (set_current (int off) lease f) = Inr ()")
    case True
    with sc(1) have l: "length (format_0d (int off) (length ds)) = length ds"
      by (auto split: if_splits)
    from True sc(2) have "content (do_call c f) = file_image (format_0d (int off) (length ds)) recs"
      using Call_set_current by (simp add: file_image_def)
    moreover have "good_image (format_0d (int off) (length ds)) recs"
      using assms(2) l len format_0d_all_digits [of off "length ds"] by (simp add: good_image_def)
    ultimately show ?thesis by blast
  next
    case False
    with sc(2) have "content (do_call c f) = file_image ds recs"
      using Call_set_current assms(1) by simp
    with assms(2) show ?thesis by blast
  qed
qed

lemma run_calls_image:
  assumes "content f = file_image ds recs" and "good_image ds recs" and "list_all legal cs"
  shows "\<exists>ds' recs'. content (run_calls cs f) = file_image ds' recs' \<and> good_image ds' recs'"
  using assms
proof (induction cs arbitrary: f ds recs)
  case Nil
  then show ?case by (auto simp: run_calls_def)
next
  case (Cons c cs)
  from Cons.prems(3) have c: "legal c" and cs: "list_all legal cs" by simp_all
  from do_call_image [OF Cons.prems(1,2) c] obtain ds1 recs1 where
    "content (do_call c f) = file_image ds1 recs1" "good_image ds1 recs1" by blast
  from Cons.IH [OF this cs] show ?case by (simp add: run_calls_def)
qed

lemma open_in_memory_image:
  "content open_in_memory = file_image ''000000000000000'' []"
  "good_image ''000000000000000'' []"
  by (simp_all add: content_open_in_memory file_image_def good_image_def is_digit_def)

lemma produced_image:
  "list_all legal cs \<Longrightarrow>
   \<exists>ds recs. content (run_calls cs open_in_memory) = file_image ds recs \<and> good_image ds recs"
  by (rule run_calls_image [OF open_in_memory_image])

lemma scan_accepts_produced:
  "list_all legal cs \<Longrightarrow> fst (scan (run_calls cs open_in_memory)) = Inr ()"
  using produced_image [of cs] scan_file_image by blast

lemma scan_loop_bad_marker:
  assumes "drop (pos f) (content f) = c # r @ NL # rest" and "c \<noteq> TAB" and "NL \<notin> set r"
  shows "fst (scan_loop f) = Inl CorruptedFormat"
proof (cases "c = NL")
  case True
  with assms(1) have "drop (pos f) (content f) = [] @ NL # (r @ NL # rest)" by simp
  then show ?thesis by (rule scan_loop_bad_line) simp_all
next
  case False
  from assms(1) have "drop (pos f) (content f) = (c # r) @ NL # rest" by simp
  then show ?thesis
    by (rule scan_loop_bad_line) (use False assms(2,3) in simp_all)
qed

lemma concat_frames_NL: "recs \<noteq> [] \<Longrightarrow> NL \<in> set (concat (map frame recs))"
  by (cases recs) (simp_all add: frame_def)

lemma scan_loop_bad_terminator:
  assumes "drop (pos f) (content f) = TAB # r @ c # concat (map frame rs)"
    and "c \<noteq> NL" and "NL \<notin> set r" and "\<forall>r\<in>set rs. TAB \<notin> set r \<and> NL \<notin> set r"
  shows "fst (scan_loop f) = Inl CorruptedFormat"
proof (cases rs)
  case Nil
  with assms(1) have d: "drop (pos f) (content f) = TAB # r @ [c]" by simp
  show ?thesis
    by (rule scan_loop_unterminated) (use d assms(2,3) in \<open>simp_all add: TAB_def NL_def\<close>)
next
  case (Cons r2 rs')
  with assms(1) have "drop (pos f) (content f) = (TAB # r @ c # TAB # r2) @ NL # concat (map frame rs')"
    by (simp add: frame_def)
  then show ?thesis
    by (rule scan_loop_bad_line) (use Cons assms(2,3,4) in \<open>simp_all add: TAB_def NL_def\<close>)
qed

lemma scan_loop_bad_payload_tab:
  assumes "drop (pos f) (content f) = TAB # r @ NL # rest" and "NL \<notin> set r" and "TAB \<in> set r"
  shows "fst (scan_loop f) = Inl CorruptedFormat"
proof -
  from assms(1) have "drop (pos f) (content f) = (TAB # r) @ NL # rest" by simp
  then show ?thesis
    by (rule scan_loop_bad_line) (use assms(2,3) in \<open>simp_all add: TAB_def NL_def\<close>)
qed

lemma scan_loop_bad_payload_nl:
  assumes "drop (pos f) (content f) = TAB # a @ NL # b @ NL # rest"
    and "TAB \<notin> set a" "NL \<notin> set a" "TAB \<notin> set b" "NL \<notin> set b"
  shows "fst (scan_loop f) = Inl CorruptedFormat"
proof -
  from assms(1) have d: "drop (pos f) (content f) = frame a @ (b @ NL # rest)"
    by (simp add: frame_def)
  let ?f = "f\<lparr>pos := pos f + length (frame a)\<rparr>"
  have "drop (pos ?f) (content ?f) = drop (length (frame a)) (drop (pos f) (content f))"
    by (simp add: add.commute)
  then have d': "drop (pos ?f) (content ?f) = b @ NL # rest" by (simp add: d)
  have "fst (scan_loop ?f) = Inl CorruptedFormat"
    using d' assms(5)
  proof (rule scan_loop_bad_line)
    show "b = [] \<or> hd b \<noteq> TAB \<or> TAB \<in> set (tl b)"
      using assms(4) by (cases b) auto
  qed
  with scan_loop_good_line [OF d assms(2,3)] show ?thesis by simp
qed

lemma frame_update:
  "(frame r @ rest)[m := c] =
     (if m = 0 then c # r @ NL # rest
      else if m \<le> length r then TAB # r[m - 1 := c] @ NL # rest
      else if m = length r + 1 then TAB # r @ c # rest
      else frame r @ rest[m - length (frame r) := c])"
proof (cases m)
  case 0
  then show ?thesis by (simp add: frame_def)
next
  case (Suc j)
  show ?thesis
  proof (cases "j < length r")
    case True
    with Suc show ?thesis by (simp add: frame_def list_update_append)
  next
    case False
    show ?thesis
    proof (cases "j = length r")
      case True
      with Suc show ?thesis by (simp add: frame_def list_update_append)
    next
      case False
      with \<open>\<not> j < length r\<close> obtain k where k: "j = length r + Suc k"
        by (metis add_Suc_right less_imp_Suc_add linorder_neqE_nat)
      with Suc show ?thesis by (simp add: frame_def list_update_append)
    qed
  qed
qed

lemma frame_nth:
  "(frame r @ rest) ! m =
     (if m = 0 then TAB
      else if m \<le> length r then r ! (m - 1)
      else if m = length r + 1 then NL
      else rest ! (m - length (frame r)))"
proof (cases m)
  case 0
  then show ?thesis by (simp add: frame_def)
next
  case (Suc j)
  show ?thesis
  proof (cases "j < length r")
    case True
    with Suc show ?thesis by (simp add: frame_def nth_append)
  next
    case False
    show ?thesis
    proof (cases "j = length r")
      case True
      with Suc show ?thesis by (simp add: frame_def nth_append)
    next
      case False
      with \<open>\<not> j < length r\<close> obtain k where k: "j = length r + Suc k"
        by (metis add_Suc_right less_imp_Suc_add linorder_neqE_nat)
      with Suc show ?thesis by (simp add: frame_def nth_append)
    qed
  qed
qed

lemma scan_loop_clean_frames:
  assumes "drop (pos f) (content f) = concat (map frame recs)"
    and "\<forall>r\<in>set recs. TAB \<notin> set r \<and> NL \<notin> set r"
  shows "fst (scan_loop f) = Inr ()"
proof -
  from assms(1) have d: "drop (pos f) (content f) = concat (map frame recs) @ []" by simp
  let ?f = "f\<lparr>pos := pos f + length (concat (map frame recs))\<rparr>"
  have "drop (pos ?f) (content ?f) = drop (length (concat (map frame recs))) (drop (pos f) (content f))"
    by (simp add: add.commute)
  then have "drop (pos ?f) (content ?f) = []" by (simp add: assms(1))
  then have "fst (scan_loop ?f) = Inr ()" by (rule scan_loop_end)
  with scan_loop_frames [OF d assms(2)] show ?thesis by simp
qed

lemma scan_loop_mutated:
  assumes "\<forall>r\<in>set recs. TAB \<notin> set r \<and> NL \<notin> set r"
    and "m < length (concat (map frame recs))"
    and "c \<noteq> concat (map frame recs) ! m"
    and "drop (pos f) (content f) = (concat (map frame recs))[m := c]"
  shows "fst (scan_loop f) =
     (if concat (map frame recs) ! m = TAB \<or> concat (map frame recs) ! m = NL \<or> c = TAB \<or> c = NL
      then Inl CorruptedFormat else Inr ())"
  using assms
proof (induction recs arbitrary: f m)
  case Nil
  then show ?case by simp
next
  case (Cons r rs)
  define B where "B = concat (map frame rs)"
  have body: "concat (map frame (r # rs)) = frame r @ B" by (simp add: B_def)
  from Cons.prems(1) have cr: "TAB \<notin> set r" "NL \<notin> set r"
    and crs: "\<forall>r\<in>set rs. TAB \<notin> set r \<and> NL \<notin> set r" by simp_all
  have lf: "length (frame r) = length r + 2" by (simp add: frame_def)
  note upd = frame_update [of r B m c]
  note nth = frame_nth [of r B m]
  have d: "drop (pos f) (content f) = (frame r @ B)[m := c]"
    using Cons.prems(4) by (simp add: B_def)
  have ne: "c \<noteq> (frame r @ B) ! m" using Cons.prems(3) by (simp add: B_def)
  consider (marker) "m = 0" | (payload) "0 < m" "m \<le> length r" | (terminator) "m = length r + 1"
    | (later) "length r + 1 < m"
    by atomize_elim arith
  then have "fst (scan_loop f) =
     (if (frame r @ B) ! m = TAB \<or> (frame r @ B) ! m = NL \<or> c = TAB \<or> c = NL
      then Inl CorruptedFormat else Inr ())"
  proof cases
    case marker
    with d upd have d0: "drop (pos f) (content f) = c # r @ NL # B" by simp
    from marker nth ne have "c \<noteq> TAB" by simp
    from scan_loop_bad_marker [OF d0 this cr(2)] marker nth show ?thesis by simp
  next
    case payload
    with d upd have d1: "drop (pos f) (content f) = TAB # r[m - 1 := c] @ NL # B" by simp
    from payload nth have old: "(frame r @ B) ! m = r ! (m - 1)" by simp
    from payload have j: "m - 1 < length r" by simp
    then have "r ! (m - 1) \<in> set r" by simp
    with cr have oldn: "r ! (m - 1) \<noteq> TAB" "r ! (m - 1) \<noteq> NL" by auto
    show ?thesis
    proof (cases "c = TAB")
      case True
      have "TAB \<in> set (r[m - 1 := c])" using True j by (simp add: set_update_memI)
      moreover have "NL \<notin> set (r[m - 1 := c])"
        using True cr(2) set_update_subset_insert [of r "m - 1" c] by (auto simp: TAB_def NL_def)
      ultimately have "fst (scan_loop f) = Inl CorruptedFormat"
        using d1 by (intro scan_loop_bad_payload_tab [where r = "r[m - 1 := c]" and rest = B]) simp_all
      with True show ?thesis by simp
    next
      case False
      show ?thesis
      proof (cases "c = NL")
        case True
        have r': "r[m - 1 := c] = take (m - 1) r @ NL # drop (Suc (m - 1)) r"
          using True j by (simp add: upd_conv_take_nth_drop)
        have d2: "drop (pos f) (content f)
            = TAB # take (m - 1) r @ NL # drop (Suc (m - 1)) r @ NL # B"
          using d1 unfolding r' by simp
        have a: "TAB \<notin> set (take (m - 1) r)" "NL \<notin> set (take (m - 1) r)"
          using cr by (auto dest: in_set_takeD)
        have b: "TAB \<notin> set (drop (Suc (m - 1)) r)" "NL \<notin> set (drop (Suc (m - 1)) r)"
          using cr by (auto dest: in_set_dropD)
        from scan_loop_bad_payload_nl [OF d2 a b] True show ?thesis by simp
      next
        case cnl: False
        have cl': "\<forall>x\<in>set (r[m - 1 := c] # rs). TAB \<notin> set x \<and> NL \<notin> set x"
          using False cnl cr crs set_update_subset_insert [of r "m - 1" c] by auto
        have "drop (pos f) (content f) = concat (map frame (r[m - 1 := c] # rs))"
          using d1 by (simp add: frame_def B_def)
        from scan_loop_clean_frames [OF this cl'] False cnl old oldn show ?thesis by simp
      qed
    qed
  next
    case terminator
    with d upd have d2: "drop (pos f) (content f) = TAB # r @ c # concat (map frame rs)"
      by (simp add: B_def)
    from terminator nth ne have "c \<noteq> NL" by simp
    from scan_loop_bad_terminator [OF d2 this cr(2) crs] terminator nth show ?thesis by simp
  next
    case later
    with d upd lf have d3: "drop (pos f) (content f) = frame r @ B[m - length (frame r) := c]"
      by simp
    from later nth lf have old: "(frame r @ B) ! m = B ! (m - length (frame r))" by simp
    let ?f = "f\<lparr>pos := pos f + length (frame r)\<rparr>"
    have "drop (pos ?f) (content ?f) = drop (length (frame r)) (drop (pos f) (content f))"
      by (simp add: add.commute)
    then have d': "drop (pos ?f) (content ?f) = (concat (map frame rs))[m - length (frame r) := c]"
      by (simp add: d3 B_def)
    have m': "m - length (frame r) < length (concat (map frame rs))"
      using Cons.prems(2) later lf by (simp add: body B_def)
    have ne': "c \<noteq> concat (map frame rs) ! (m - length (frame r))"
      using ne old by (simp add: B_def)
    from Cons.IH [OF crs m' ne' d'] scan_loop_good_line [OF d3 cr] old show ?thesis
      by (simp add: B_def)
  qed
  then show ?case by (simp add: B_def)
qed

lemma digits_no_TAB: "list_all is_digit ds \<Longrightarrow> TAB \<notin> set ds"
  by (induction ds) (auto simp: is_digit_def TAB_def)

lemma scan_root_digit_mutated:
  assumes good: "good_image ds recs" and k: "k < length ds"
    and g: "content g = IDENTIFIER @ NL # ds[k := c] @ NL # concat (map frame recs)"
  shows "fst (scan g) = (if is_digit c then Inr () else Inl CorruptedFormat)"
proof -
  define B where "B = concat (map frame recs)"
  from good have len: "length ds = 15" and dg: "list_all is_digit ds"
    and cl: "\<forall>r\<in>set recs. TAB \<notin> set r \<and> NL \<notin> set r"
    by (simp_all add: good_image_def)
  have nl: "NL \<notin> set ds" using dg by (rule digits_no_NL)
  have tb: "TAB \<notin> set ds" using dg by (rule digits_no_TAB)
  show ?thesis
  proof (cases "is_digit c")
    case True
    have "list_all is_digit (ds[k := c])"
      using dg True set_update_subset_insert [of ds k c] by (auto simp: list_all_iff)
    then have "good_image (ds[k := c]) recs"
      using len cl by (simp add: good_image_def)
    moreover have "content g = file_image (ds[k := c]) recs"
      using g by (simp add: file_image_def)
    ultimately have "fst (scan g) = Inr ()" by (intro scan_file_image)
    with True show ?thesis by simp
  next
    case nd: False
    show ?thesis
    proof (cases "c = NL")
      case False
      have n': "NL \<notin> set (ds[k := c])"
        using nl False set_update_subset_insert [of ds k c] by auto
      have "c \<in> set (ds[k := c])" using k by (simp add: set_update_memI)
      with nd have "\<not> list_all is_digit (ds[k := c])" by (auto simp: list_all_iff)
      then have p: "parse_current_offset (ds[k := c] @ [NL]) = Inl CorruptedFormat"
        by (simp add: parse_current_offset_line)
      from scan_root_line [OF g n'] p nd show ?thesis by simp
    next
      case True
      have u: "ds[k := c] = take k ds @ NL # drop (Suc k) ds"
        using True k by (simp add: upd_conv_take_nth_drop)
      have g': "content g = IDENTIFIER @ NL # take k ds @ NL # (drop (Suc k) ds @ NL # B)"
        using g unfolding u B_def by simp
      have n1: "NL \<notin> set (take k ds)" using nl by (auto dest: in_set_takeD)
      have n2: "NL \<notin> set (drop (Suc k) ds)" using nl by (auto dest: in_set_dropD)
      note s = scan_root_line [OF g' n1]
      show ?thesis
      proof (cases "k = 0")
        case True
        then have "parse_current_offset (take k ds @ [NL]) = Inl CorruptedFormat"
          using parse_current_offset_line [of "[]"] by simp
        with s nd show ?thesis by simp
      next
        case False
        have "list_all is_digit (take k ds)"
          using dg by (auto simp: list_all_iff dest: in_set_takeD)
        with False k len have p: "parse_current_offset (take k ds @ [NL]) = Inr (dec_value (take k ds))"
          by (simp add: parse_current_offset_line)
        let ?g2 = "g\<lparr>pos := length IDENTIFIER + 1 + length (take k ds) + 1\<rparr>"
        have "drop (pos ?g2) (content ?g2) = drop (Suc k) ds @ NL # B"
          using drop_after_line [of "length IDENTIFIER + 1" "content g" "take k ds" "drop (Suc k) ds @ NL # B"]
          by (simp add: g')
        moreover have "drop (Suc k) ds = [] \<or> hd (drop (Suc k) ds) \<noteq> TAB \<or> TAB \<in> set (tl (drop (Suc k) ds))"
        proof (cases "drop (Suc k) ds")
          case Nil
          then show ?thesis by simp
        next
          case (Cons x xs)
          then have "x \<in> set (drop (Suc k) ds)" by simp
          then have "x \<in> set ds" by (rule in_set_dropD)
          with tb have "x \<noteq> TAB" by auto
          with Cons show ?thesis by simp
        qed
        ultimately have "fst (scan_loop ?g2) = Inl CorruptedFormat"
          using n2 by (intro scan_loop_bad_line [where l = "drop (Suc k) ds" and rest = B]) simp_all
        with s p nd show ?thesis by simp
      qed
    qed
  qed
qed

lemma scan_root_nl_mutated:
  assumes good: "good_image ds recs" and c: "c \<noteq> NL"
    and g: "content g = IDENTIFIER @ NL # ds @ c # concat (map frame recs)"
  shows "fst (scan g) = Inl CorruptedFormat"
proof -
  from good have len: "length ds = 15" and dg: "list_all is_digit ds"
    and cl: "\<forall>r\<in>set recs. TAB \<notin> set r \<and> NL \<notin> set r"
    by (simp_all add: good_image_def)
  have nl: "NL \<notin> set ds" using dg by (rule digits_no_NL)
  show ?thesis
  proof (cases recs)
    case Nil
    with g have g': "content g = IDENTIFIER @ NL # (ds @ [c])" by simp
    have "NL \<notin> set (ds @ [c])" using nl c by auto
    with g' show ?thesis by (rule scan_root_unterminated)
  next
    case (Cons r rs)
    with cl have r: "NL \<notin> set r" by simp
    have g': "content g = IDENTIFIER @ NL # (ds @ c # TAB # r) @ NL # concat (map frame rs)"
      using g Cons by (simp add: frame_def)
    have n: "NL \<notin> set (ds @ c # TAB # r)" using nl c r by (auto simp: TAB_def NL_def)
    have "parse_current_offset ((ds @ c # TAB # r) @ [NL]) = Inl CorruptedFormat"
      using len by (simp only: parse_current_offset_line) simp
    with scan_root_line [OF g' n] show ?thesis by simp
  qed
qed

lemma scan_record_mutated:
  assumes good: "good_image ds recs"
    and m: "m < length (concat (map frame recs))"
    and c: "c \<noteq> concat (map frame recs) ! m"
    and g: "content g = IDENTIFIER @ NL # ds @ NL # (concat (map frame recs))[m := c]"
  shows "fst (scan g) =
     (if concat (map frame recs) ! m = TAB \<or> concat (map frame recs) ! m = NL \<or> c = TAB \<or> c = NL
      then Inl CorruptedFormat else Inr ())"
proof -
  from good have len: "length ds = 15" and dg: "list_all is_digit ds"
    and cl: "\<forall>r\<in>set recs. TAB \<notin> set r \<and> NL \<notin> set r"
    by (simp_all add: good_image_def)
  have nl: "NL \<notin> set ds" using dg by (rule digits_no_NL)
  have p: "parse_current_offset (ds @ [NL]) = Inr (dec_value ds)"
    using len dg by (simp add: parse_current_offset_line)
  let ?g2 = "g\<lparr>pos := length IDENTIFIER + 1 + length ds + 1\<rparr>"
  have d: "drop (pos ?g2) (content ?g2) = (concat (map frame recs))[m := c]"
    by (simp add: g)
  from scan_root_line [OF g nl] p scan_loop_mutated [OF cl m c d] show ?thesis by simp
qed

lemma two_lines_update:
  "(P @ x # ds @ y # B)[Suc (length P + j) := c] =
     (if j < length ds then P @ x # ds[j := c] @ y # B
      else if j = length ds then P @ x # ds @ c # B
      else P @ x # ds @ y # B[j - Suc (length ds) := c])"
proof -
  have a: "(P @ x # ds @ y # B)[Suc (length P + j) := c] = P @ x # (ds @ y # B)[j := c]"
    by (simp add: list_update_append)
  have b: "(ds @ y # B)[j := c] =
     (if j < length ds then ds[j := c] @ y # B
      else if j = length ds then ds @ c # B
      else ds @ y # B[j - Suc (length ds) := c])"
  proof (cases "j < length ds")
    case True
    then show ?thesis by (simp add: list_update_append)
  next
    case False
    then obtain j' where j: "j = length ds + j'"
      by (metis le_iff_add not_less)
    show ?thesis by (cases j') (simp_all add: j list_update_append)
  qed
  show ?thesis unfolding a b by simp
qed

lemma two_lines_nth:
  "(P @ x # ds @ y # B) ! Suc (length P + j) =
     (if j < length ds then ds ! j
      else if j = length ds then y
      else B ! (j - Suc (length ds)))"
proof -
  have a: "(P @ x # ds @ y # B) ! Suc (length P + j) = (ds @ y # B) ! j"
    by (simp add: nth_append)
  have b: "(ds @ y # B) ! j =
     (if j < length ds then ds ! j
      else if j = length ds then y
      else B ! (j - Suc (length ds)))"
  proof (cases "j < length ds")
    case True
    then show ?thesis by (simp add: nth_append)
  next
    case False
    then obtain j' where j: "j = length ds + j'"
      by (metis le_iff_add not_less)
    show ?thesis by (cases j') (simp_all add: j nth_append)
  qed
  show ?thesis unfolding a b by simp
qed

lemma scan_mutated_image:
  assumes f: "content f = file_image ds recs" and good: "good_image ds recs"
    and lo: "length IDENTIFIER < i" and hi: "i < length (content f)"
    and c: "c \<noteq> content f ! i"
  shows "fst (scan (mutate i c f)) =
     (if content f ! i = TAB \<or> content f ! i = NL \<or> c = TAB \<or> c = NL
         \<or> (i \<le> length IDENTIFIER + DEFAULT_HEADER \<and> \<not> is_digit c)
      then Inl CorruptedFormat else Inr ())"
proof -
  define B where "B = concat (map frame recs)"
  from good have len: "length ds = 15" and dg: "list_all is_digit ds"
    by (simp_all add: good_image_def)
  have nl: "NL \<notin> set ds" using dg by (rule digits_no_NL)
  have tb: "TAB \<notin> set ds" using dg by (rule digits_no_TAB)
  have cf: "content f = IDENTIFIER @ NL # ds @ NL # B"
    using f by (simp add: file_image_def B_def)
  from lo obtain j where i: "i = Suc (length IDENTIFIER + j)"
    using less_imp_Suc_add by blast
  have cg: "content (mutate i c f) = (IDENTIFIER @ NL # ds @ NL # B)[Suc (length IDENTIFIER + j) := c]"
    unfolding mutate_def cf i by simp
  have co: "content f ! i = (IDENTIFIER @ NL # ds @ NL # B) ! Suc (length IDENTIFIER + j)"
    by (simp only: cf i)
  have lc: "length (content f) = Suc (length IDENTIFIER + (length ds + Suc (length B)))"
    by (simp add: cf)
  have hd: "i \<le> length IDENTIFIER + DEFAULT_HEADER \<longleftrightarrow> j < length ds"
    by (simp add: i len DEFAULT_HEADER_def) arith
  consider (digit) "j < length ds" | (newline) "j = length ds" | (records) "length ds < j"
    by atomize_elim arith
  then show ?thesis
  proof cases
    case digit
    from digit cg have g: "content (mutate i c f)
        = IDENTIFIER @ NL # ds[j := c] @ NL # concat (map frame recs)"
      by (simp only: two_lines_update B_def if_True)
    from digit co have old: "content f ! i = ds ! j" by (simp only: two_lines_nth if_True)
    from digit have "ds ! j \<in> set ds" by simp
    with nl tb have o: "ds ! j \<noteq> NL" "ds ! j \<noteq> TAB" by auto
    have d: "is_digit c \<Longrightarrow> c \<noteq> TAB \<and> c \<noteq> NL" by (auto simp: is_digit_def TAB_def NL_def)
    from scan_root_digit_mutated [OF good digit g] old o d hd digit show ?thesis by auto
  next
    case newline
    from newline cg have g: "content (mutate i c f)
        = IDENTIFIER @ NL # ds @ c # concat (map frame recs)"
      by (simp add: two_lines_update B_def)
    from newline co have old: "content f ! i = NL" by (simp add: two_lines_nth)
    with c have "c \<noteq> NL" by simp
    from scan_root_nl_mutated [OF good this g] old show ?thesis by simp
  next
    case records
    let ?m = "j - Suc (length ds)"
    from records cg have g: "content (mutate i c f)
        = IDENTIFIER @ NL # ds @ NL # (concat (map frame recs))[?m := c]"
      by (simp add: two_lines_update B_def)
    from records co have old: "content f ! i = concat (map frame recs) ! ?m"
      by (simp add: two_lines_nth B_def)
    from hi records have m: "?m < length (concat (map frame recs))"
      unfolding lc i B_def by arith
    from c old have c': "c \<noteq> concat (map frame recs) ! ?m" by simp
    from records hd have "\<not> i \<le> length IDENTIFIER + DEFAULT_HEADER" by simp
    with scan_record_mutated [OF good m c' g] old show ?thesis by simp
  qed
qed

lemma content_store_example:
  "content (run_calls [Call_store ''=1''] open_in_memory)
     = file_image ''000000000000000'' [''=1'']"
  by (simp add: run_calls_def store_content content_open_in_memory file_image_def frame_def
      IDENTIFIER_def TAB_def NL_def)

lemma image_example:
  "file_image ''000000000000000'' [''=1'']
     = IDENTIFIER @ NL # ''000000000000000'' @ NL # TAB # ''=1'' @ [NL]"
  by (simp add: file_image_def frame_def)

lemma format_minus_five: "format_0d (- 5) 15 = ''-00000000000005''"
proof -
  have "dec_digits 5 = ''5''" by (simp add: dec_digits_small digit_char_def)
  then show ?thesis by (simp add: format_0d_def zero_pad_def numeral_eq_Suc)
qed

text \<open>
  The sign of the offset is not checked by \<open>set_current\<close>: a negative offset is
  written with its minus sign, and \<open>scan\<close> rejects the file.
\<close>

lemma set_current_negative:
  "fst (set_current (- 5) None open_in_memory) = Inr ()
   \<and> content (snd (set_current (- 5) None open_in_memory))
       = IDENTIFIER @ NL # ''-00000000000005'' @ [NL]
   \<and> fst (scan (snd (set_current (- 5) None open_in_memory))) = Inl CorruptedFormat"
proof -
  have c: "content open_in_memory = IDENTIFIER @ NL # ''000000000000000'' @ NL # []"
    by (simp add: content_open_in_memory)
  have nl: "NL \<notin> set ''000000000000000''" by (simp add: NL_def)
  have l15: "length ''000000000000000'' = 15" by simp
  have p: "parse_current_offset (''000000000000000'' @ [NL]) = Inr (dec_value ''000000000000000'')"
    using parse_current_offset_line [of "''000000000000000''"] by (simp add: is_digit_def)
  note sc = set_current_header [OF c nl, of "- 5" None, unfolded p l15 format_minus_five]
  from sc(1) have a: "fst (set_current (- 5) None open_in_memory) = Inr ()" by simp
  with sc(2) have b: "content (snd (set_current (- 5) None open_in_memory))
       = IDENTIFIER @ NL # ''-00000000000005'' @ NL # []" by simp
  have n2: "NL \<notin> set ''-00000000000005''" by (simp add: NL_def)
  have "parse_current_offset (''-00000000000005'' @ [NL]) = Inl CorruptedFormat"
    using parse_current_offset_line [of "''-00000000000005''"] by (simp add: is_digit_def)
  with scan_root_line [OF b n2] have "fst (scan (snd (set_current (- 5) None open_in_memory))) = Inl CorruptedFormat"
    by simp
  with a b show ?thesis by simp
qed

lemma content_two_calls_example:
  "content (run_calls [Call_store ''=1'', Call_set_current 53 (Some 0)] open_in_memory)
     = IDENTIFIER @ NL # ''000000000000053'' @ NL # TAB # ''=1'' @ [NL]"
proof -
  let ?f = "run_calls [Call_store ''=1''] open_in_memory"
  have c: "content ?f = IDENTIFIER @ NL # ''000000000000000'' @ NL # (TAB # ''=1'' @ [NL])"
    by (simp add: content_store_example image_example)
  have nl: "NL \<notin> set ''000000000000000''" by (simp add: NL_def)
  have l15: "length ''000000000000000'' = 15" by simp
  have p: "parse_current_offset (''000000000000000'' @ [NL]) = Inr 0"
    using parse_current_offset_line [of "''000000000000000''"]
    by (simp add: is_digit_def dec_value_def digit_val_def)
  have "dec_digits 53 = ''53''"
    by (simp add: dec_digits_large dec_digits_small digit_char_def)
  then have f: "format_0d 53 15 = ''000000000000053''"
    by (simp add: format_0d_def zero_pad_def numeral_eq_Suc)
  note sc = set_current_header [OF c nl, of 53 "Some 0", unfolded p l15 f]
  from sc(1) have "fst (set_current 53 (Some 0) ?f) = Inr ()" by simp
  with sc(2) have "content (snd (set_current 53 (Some 0) ?f))
      = IDENTIFIER @ NL # ''000000000000053'' @ NL # (TAB # ''=1'' @ [NL])" by simp
  then show ?thesis by (simp add: run_calls_def)
qed


section \<open>Claims about the low level storage\<close>

text \<open>
  Claim C2.  Round trip of the record log: for every byte string \<open>b\<close> that contains
  neither TAB nor NL, \<open>store b\<close> on a storage that holds at least the minimal header
  returns an offset, and \<open>load\<close> of that offset returns exactly \<open>b\<close>.
\<close>

theorem store_load_roundtrip:
  assumes "TAB \<notin> set b" and "NL \<notin> set b" and "2 \<le> length (content f)"
  shows "\<exists>offset. fst (store b f) = Inr offset \<and> fst (load offset (snd (store b f))) = Inr b"
proof -
  have "fst (load (length (content f)) (snd (store b f))) = Inr b"
    using assms
    by (simp add: store_ok [OF assms] load_spec Let_def startswith_def takeWhile_prefix_miss TAB_def NL_def)
  then show ?thesis by (simp add: store_ok [OF assms])
qed

theorem store_load_roundtrip_witness:
  "TAB \<notin> set ''=1'' \<and> NL \<notin> set ''=1'' \<and> 2 \<le> length (content open_in_memory)
   \<and> (\<exists>offset. fst (store ''=1'' open_in_memory) = Inr offset
         \<and> fst (load offset (snd (store ''=1'' open_in_memory))) = Inr ''=1'')"
proof -
  have a: "TAB \<notin> set ''=1''" by (simp add: TAB_def)
  have b: "NL \<notin> set ''=1''" by (simp add: NL_def)
  have c: "2 \<le> length (content open_in_memory)"
    by (simp add: open_in_memory_def init_def file_write_def seek_def)
  from store_load_roundtrip [OF a b c] a b c show ?thesis by blast
qed

text \<open>
  Claim C3.  \<open>load\<close> is claimed to raise \<open>CorruptedFormat\<close> on every structural
  violation, a truncated tail and an offset at or past the end of file included.  On a
  file whose last record lacks its newline, \<open>load\<close> of that record (offset 53) ends in
  the \<open>RuntimeError\<close> of \<open>_getline\<close>, and \<open>load\<close> at the end of file (offset 56) ends in
  the \<open>AttributeError\<close> of \<open>None.startswith\<close>: the test \<open>line.endswith\<close> of \<open>load\<close>
  that would raise \<open>CorruptedFormat\<close> is never reached.
\<close>

theorem load_truncated_tail_not_CorruptedFormat:
  "fst (load 53 \<lparr>content = IDENTIFIER @ [NL] @ ''000000000000000'' @ [NL] @ [TAB] @ ''=1'', pos = 0\<rparr>)
     = Inl RuntimeError
   \<and> fst (load 56 \<lparr>content = IDENTIFIER @ [NL] @ ''000000000000000'' @ [NL] @ [TAB] @ ''=1'', pos = 0\<rparr>)
     = Inl AttributeError"
  by (simp add: load_spec Let_def IDENTIFIER_def NL_def TAB_def)

text \<open>
  The root line when it is terminated: on a file that starts with the identifier line
  and whose second line is \<open>ds\<close> followed by a newline, \<open>get_current\<close> raises
  \<open>CorruptedFormat\<close> unless \<open>ds\<close> consists of digits only, at least one and at most
  \<open>MAX_HEADER = 15\<close> of them, and then it returns the decimal value of \<open>ds\<close>.
\<close>

lemma get_current_root_line:
  assumes "content f = IDENTIFIER @ NL # ds @ NL # rest" and "NL \<notin> set ds"
  shows "fst (get_current f) =
     (if 1 \<le> length ds \<and> length ds \<le> MAX_HEADER \<and> list_all is_digit ds
      then Inr (dec_value ds) else Inl CorruptedFormat)"
  by (simp add: get_current_header(1) [OF assms] parse_current_offset_line MAX_HEADER_def)

lemma get_current_root_line_example:
  "fst (get_current \<lparr>content = IDENTIFIER @ NL # ''000000000000053'' @ NL # [], pos = 0\<rparr>) = Inr 53"
proof -
  have a: "content \<lparr>content = IDENTIFIER @ NL # ''000000000000053'' @ NL # [], pos = 0\<rparr>
      = IDENTIFIER @ NL # ''000000000000053'' @ NL # []" by simp
  have b: "NL \<notin> set ''000000000000053''" by (simp add: NL_def)
  have c: "dec_value ''000000000000053'' = 53" by (simp add: dec_value_def digit_val_def)
  have d: "list_all is_digit ''000000000000053''" by (simp add: is_digit_def)
  from get_current_root_line [OF a b] c d show ?thesis by (simp add: MAX_HEADER_def)
qed

text \<open>
  Claim C5.  \<open>get_current\<close> is claimed to raise \<open>CorruptedFormat\<close> unless the second
  line of the file is the digits of the root offset followed by a newline.  When the
  newline is missing it does not: on a file that ends after the digits of the root line
  \<open>get_current\<close> ends in the \<open>RuntimeError\<close> of \<open>_getline\<close>, and on a file that ends
  after the identifier line in the \<open>AssertionError\<close> of \<open>assert line\<close>.  The test
  \<open>line.endswith\<close> of \<open>_parse_current_offset\<close>, which would raise \<open>CorruptedFormat\<close>,
  is never reached with such a line.
\<close>

theorem get_current_unterminated_root_line:
  "fst (get_current \<lparr>content = IDENTIFIER @ [NL] @ ''000000000000053'', pos = 0\<rparr>)
     = Inl RuntimeError
   \<and> fst (get_current \<lparr>content = IDENTIFIER @ [NL], pos = 0\<rparr>) = Inl AssertionError"
proof -
  have "fst (get_current \<lparr>content = IDENTIFIER @ [NL] @ ''000000000000053'', pos = 0\<rparr>)
     = Inl RuntimeError"
    using get_current_unterminated [of "\<lparr>content = IDENTIFIER @ [NL] @ ''000000000000053'', pos = 0\<rparr>"
        "''000000000000053''"]
    by (simp add: NL_def)
  moreover have "fst (get_current \<lparr>content = IDENTIFIER @ [NL], pos = 0\<rparr>) = Inl AssertionError"
    using get_current_unterminated [of "\<lparr>content = IDENTIFIER @ [NL], pos = 0\<rparr>" "[]"]
    by simp
  ultimately show ?thesis by (rule conjI)
qed

section \<open>Claims about commit\<close>

text \<open>
  Claim C1.  Commit is compare-and-swap.  On a file whose root line holds \<open>R\<close>,
  \<open>set_current\<close> with a lease raises \<open>ConcurrencyError\<close> exactly when the lease differs
  from \<open>R\<close>, and then leaves the file as it is.  \<open>commit\<close> passes the root the store has
  observed as the lease: when the handles \<open>A\<close> and \<open>B\<close> have both observed \<open>R\<close> and
  \<open>A\<close> commits a different root \<open>R'\<close>, then \<open>A\<close> has observed \<open>R'\<close>, the file holds
  \<open>R'\<close>, the commit of \<open>B\<close> on that file raises \<open>ConcurrencyError\<close> whatever the
  state of its root (not detached), and the file still holds \<open>R'\<close> afterwards.
\<close>

theorem commit_compare_and_swap:
  assumes opened: "fst (get_current f) = Inr R"
    and handle_A: "content (storage A) = content f" "current_root A = int R"
    and handle_B: "current_root B = int R" "root B \<noteq> RootNone"
    and commit_A: "commit dumps A = (Inr R', A')" "R' \<noteq> int R" "0 \<le> R'"
    and same_file: "content (storage B) = content (storage A')"
    and dumps: "clean_dumps dumps"
  shows "(\<forall>off lease.
            (fst (set_current off (Some lease) f) = Inl ConcurrencyError \<longleftrightarrow> int R \<noteq> lease)
          \<and> (int R \<noteq> lease \<longrightarrow> content (snd (set_current off (Some lease) f)) = content f))
       \<and> current_root A' = R'
       \<and> fst (get_current (storage A')) = Inr (nat R')
       \<and> fst (commit dumps B) = Inl ConcurrencyError
       \<and> fst (get_current (storage (snd (commit dumps B)))) = Inr (nat R')"
proof -
  from get_current_success [OF opened] obtain ds rest where
    hdr: "content f = IDENTIFIER @ NL # ds @ NL # rest" and nl: "NL \<notin> set ds"
    and l1: "1 \<le> length ds" and l2: "length ds \<le> 15" and dg: "list_all is_digit ds"
    and val: "dec_value ds = R"
    by blast
  have p: "parse_current_offset (ds @ [NL]) = Inr R"
    using dg l1 l2 val by (simp add: parse_current_offset_line)
  have cas: "\<forall>off lease.
            (fst (set_current off (Some lease) f) = Inl ConcurrencyError \<longleftrightarrow> int R \<noteq> lease)
          \<and> (int R \<noteq> lease \<longrightarrow> content (snd (set_current off (Some lease) f)) = content f)"
  proof (intro allI)
    fix off lease
    note sc = set_current_header [OF hdr nl, of off "Some lease", unfolded p]
    have r: "fst (set_current off (Some lease) f) =
        (if int R \<noteq> lease then Inl ConcurrencyError
         else if length (format_0d off (length ds)) \<noteq> length ds then Inl AssertionError
         else Inr ())"
      using sc(1) by simp
    have a: "fst (set_current off (Some lease) f) = Inl ConcurrencyError \<longleftrightarrow> int R \<noteq> lease"
      unfolding r by simp
    have b: "int R \<noteq> lease \<longrightarrow> content (snd (set_current off (Some lease) f)) = content f"
      using sc(2) unfolding r by simp
    from a b show "(fst (set_current off (Some lease) f) = Inl ConcurrencyError \<longleftrightarrow> int R \<noteq> lease)
          \<and> (int R \<noteq> lease \<longrightarrow> content (snd (set_current off (Some lease) f)) = content f)"
      by (rule conjI)
  qed
  \<comment> \<open>the commit of A\<close>
  have lenA: "2 \<le> length (content (storage A))" using handle_A(1) hdr by simp
  have rtA: "root A \<noteq> RootNone" using commit_A(1) by (auto simp: commit_def)
  from commit_cases [OF dumps lenA rtA] obtain off s1 ex where
    cA: "commit dumps A = commit_root off s1"
    and c1: "content (storage s1) = content (storage A) @ ex" and r1: "current_root s1 = current_root A"
    by blast
  have hdr1: "content (storage s1) = IDENTIFIER @ NL # ds @ NL # (rest @ ex)"
    using c1 handle_A(1) hdr by simp
  note crA = commit_root_header [OF hdr1 nl dg l1 l2, of off]
  from commit_A(1) cA have okA: "fst (commit_root off s1) = Inr R'" and A': "A' = snd (commit_root off s1)"
    by simp_all
  from okA crA(1) have offR: "off = R'" and lenf: "length (format_0d R' (length ds)) = length ds"
    by (auto split: if_splits)
  have curA: "current_root A' = R'" using crA(3) okA offR A' by simp
  define ds' where "ds' = format_0d R' (length ds)"
  have cA': "content (storage A') = IDENTIFIER @ NL # ds' @ NL # (rest @ ex)"
    using crA(2) okA offR A' by (simp add: ds'_def)
  from commit_A(3) obtain n where n: "R' = int n" by (rule nonneg_int_cases)
  have dg': "list_all is_digit ds'" unfolding ds'_def n by (rule format_0d_all_digits)
  have len': "length ds' = length ds" using lenf by (simp add: ds'_def)
  have val': "dec_value ds' = nat R'" unfolding ds'_def n by (simp add: dec_value_format_0d)
  have nl': "NL \<notin> set ds'" using dg' by (rule digits_no_NL)
  have p': "parse_current_offset (ds' @ [NL]) = Inr (nat R')"
    using dg' l1 l2 len' val' by (simp add: parse_current_offset_line)
  have gA': "fst (get_current (storage A')) = Inr (nat R')"
    using get_current_header(1) [OF cA' nl'] p' by simp
  \<comment> \<open>the commit of B\<close>
  have lenB: "2 \<le> length (content (storage B))" using same_file cA' by simp
  from commit_cases [OF dumps lenB handle_B(2)] obtain offB s2 exB where
    cB: "commit dumps B = commit_root offB s2"
    and c2: "content (storage s2) = content (storage B) @ exB" and r2: "current_root s2 = current_root B"
    by blast
  have hdr2: "content (storage s2) = IDENTIFIER @ NL # ds' @ NL # (rest @ ex @ exB)"
    using c2 same_file cA' by simp
  have l1': "1 \<le> length ds'" and l2': "length ds' \<le> 15" using l1 l2 len' by simp_all
  note crB = commit_root_header [OF hdr2 nl' dg' l1' l2', of offB]
  have ne: "int (dec_value ds') \<noteq> current_root s2"
    using val' r2 handle_B(1) commit_A(2) commit_A(3) by simp
  from crB(1) ne have failB: "fst (commit dumps B) = Inl ConcurrencyError"
    by (simp add: cB)
  have "fst (commit_root offB s2) \<noteq> Inr offB" using crB(1) ne by simp
  with crB(2) have "content (storage (snd (commit_root offB s2))) = content (storage s2)"
    by simp
  then have cB': "content (storage (snd (commit dumps B)))
      = IDENTIFIER @ NL # ds' @ NL # (rest @ ex @ exB)"
    using hdr2 by (simp add: cB)
  have gB': "fst (get_current (storage (snd (commit dumps B)))) = Inr (nat R')"
    using get_current_header(1) [OF cB' nl'] p' by simp
  show ?thesis by (intro conjI cas curA gA' failB gB')
qed

theorem commit_compare_and_swap_witness:
  "fst (get_current open_in_memory) = Inr 0
   \<and> clean_dumps (\<lambda>v. ''1'')
   \<and> fst (commit (\<lambda>v. ''1'')
         \<lparr>storage = open_in_memory, current_root = 0, root = RootItem (Leaf None JNull)\<rparr>) = Inr 53
   \<and> fst (commit (\<lambda>v. ''1'')
         \<lparr>storage = storage (snd (commit (\<lambda>v. ''1'')
              \<lparr>storage = open_in_memory, current_root = 0, root = RootItem (Leaf None JNull)\<rparr>)),
          current_root = 0, root = RootItem (Leaf None JNull)\<rparr>) = Inl ConcurrencyError"
proof -
  let ?d = "\<lambda>v :: json. ''1''"
  let ?A = "\<lparr>storage = open_in_memory, current_root = 0, root = RootItem (Leaf None JNull)\<rparr>"
  let ?B = "\<lparr>storage = storage (snd (commit ?d ?A)), current_root = 0, root = RootItem (Leaf None JNull)\<rparr>"
  have cl: "clean_dumps ?d" by (simp add: clean_dumps_def TAB_def NL_def)
  have a1: "content (storage ?A) = content open_in_memory" by simp
  have a2: "current_root ?A = int 0" by simp
  have b1: "current_root ?B = int 0" by simp
  have b2: "root ?B \<noteq> RootNone" by simp
  have c1: "commit ?d ?A = (Inr 53, snd (commit ?d ?A))"
    using commit_dirty_leaf_in_memory by (cases "commit ?d ?A") simp
  have c2: "(53::int) \<noteq> int 0" by simp
  have c3: "(0::int) \<le> 53" by simp
  have sf: "content (storage ?B) = content (storage (snd (commit ?d ?A)))" by simp
  from commit_compare_and_swap [OF get_current_open_in_memory a1 a2 b1 b2 c1 c2 c3 sf cl]
    get_current_open_in_memory cl commit_dirty_leaf_in_memory
  show ?thesis by blast
qed



section \<open>Claims about the integrity check\<close>

text \<open>
  Claim C4, as stated: \<open>scan\<close> accepts every file produced by legal calls of \<open>store\<close>
  and \<open>set_current\<close>, and a change of any single byte of a record line or of the root
  line makes it raise \<open>CorruptedFormat\<close>.  The second half fails.  After the legal
  call \<open>store(b'=1')\<close> on a fresh storage the record is at offset 53 and its payload
  byte \<open>1\<close> at index 55; with that byte changed to \<open>2\<close> the file is the one that
  \<open>store(b'=2')\<close> would have produced, and \<open>scan\<close> returns normally.
\<close>

theorem scan_misses_payload_change:
  "legal (Call_store ''=1'')
   \<and> content (run_calls [Call_store ''=1''] open_in_memory) ! 55 = CHR ''1''
   \<and> fst (store ''=1'' open_in_memory) = Inr 53
   \<and> fst (scan (mutate 55 (CHR ''2'') (run_calls [Call_store ''=1''] open_in_memory))) = Inr ()"
proof -
  let ?f = "run_calls [Call_store ''=1''] open_in_memory"
  have l: "legal (Call_store ''=1'')" by (simp add: TAB_def NL_def)
  have a: "content ?f ! 55 = CHR ''1''"
    by (simp add: content_store_example image_example IDENTIFIER_def)
  have b: "fst (store ''=1'' open_in_memory) = Inr 53"
    by (simp add: store_def Let_def seek_end_def tell_def file_write_def content_open_in_memory
        IDENTIFIER_def TAB_def NL_def)
  have "content (mutate 55 (CHR ''2'') ?f) = file_image ''000000000000000'' [''=2'']"
    by (simp add: mutate_def content_store_example file_image_def frame_def IDENTIFIER_def)
  moreover have "good_image ''000000000000000'' [''=2'']"
    by (simp add: good_image_def is_digit_def TAB_def NL_def)
  ultimately have "fst (scan (mutate 55 (CHR ''2'') ?f)) = Inr ()"
    by (rule scan_file_image)
  with l a b show ?thesis by simp
qed

text \<open>
  Claim C4, amended.  Let \<open>f\<close> be the file after any sequence of legal calls of \<open>store\<close>
  and \<open>set_current\<close> on a freshly initialised storage (\<open>store\<close> of bytes without TAB
  or newline; \<open>set_current\<close> of an offset that is not negative, with any lease or
  none, the calls that raise \<open>ConcurrencyError\<close> or fail the length assertion
  included), and let the byte at an index \<open>i\<close> after the identifier line be replaced
  by a different byte \<open>c\<close>.  Then \<open>scan\<close> accepts \<open>f\<close>, and on the changed file it
  raises \<open>CorruptedFormat\<close> exactly when the old or the new byte is a TAB or a
  newline, or the index lies among the digits of the root line and \<open>c\<close> is not a
  digit; in every other case (a root digit replaced by another digit, a payload byte
  replaced by a byte other than TAB and newline) \<open>scan\<close> returns normally.
\<close>

theorem scan_single_byte_change:
  assumes "list_all legal cs" and "f = run_calls cs open_in_memory"
    and "length IDENTIFIER < i" and "i < length (content f)"
    and "c \<noteq> content f ! i"
  shows "fst (scan f) = Inr ()
    \<and> fst (scan (mutate i c f)) =
       (if content f ! i = TAB \<or> content f ! i = NL \<or> c = TAB \<or> c = NL
           \<or> (i \<le> length IDENTIFIER + DEFAULT_HEADER \<and> \<not> is_digit c)
        then Inl CorruptedFormat else Inr ())"
proof -
  from produced_image [OF assms(1)] assms(2) obtain ds recs
    where img: "content f = file_image ds recs" and good: "good_image ds recs" by blast
  from img good have "fst (scan f) = Inr ()" by (rule scan_file_image)
  moreover from img good assms(3-5) have "fst (scan (mutate i c f)) =
       (if content f ! i = TAB \<or> content f ! i = NL \<or> c = TAB \<or> c = NL
           \<or> (i \<le> length IDENTIFIER + DEFAULT_HEADER \<and> \<not> is_digit c)
        then Inl CorruptedFormat else Inr ())"
    by (rule scan_mutated_image)
  ultimately show ?thesis by (rule conjI)
qed

theorem scan_single_byte_change_witness:
  "list_all legal [Call_store ''=1'', Call_set_current 53 (Some 0)]
   \<and> length IDENTIFIER < 53
   \<and> 53 < length (content (run_calls [Call_store ''=1'', Call_set_current 53 (Some 0)] open_in_memory))
   \<and> CHR ''x'' \<noteq> content (run_calls [Call_store ''=1'', Call_set_current 53 (Some 0)] open_in_memory) ! 53
   \<and> fst (scan (run_calls [Call_store ''=1'', Call_set_current 53 (Some 0)] open_in_memory)) = Inr ()
   \<and> fst (scan (mutate 53 (CHR ''x'')
         (run_calls [Call_store ''=1'', Call_set_current 53 (Some 0)] open_in_memory)))
       = Inl CorruptedFormat"
proof -
  let ?f = "run_calls [Call_store ''=1'', Call_set_current 53 (Some 0)] open_in_memory"
  have l: "list_all legal [Call_store ''=1'', Call_set_current 53 (Some 0)]"
    by (simp add: TAB_def NL_def)
  have a: "length IDENTIFIER < 53" by (simp add: IDENTIFIER_def)
  have b: "53 < length (content ?f)"
    by (simp add: content_two_calls_example IDENTIFIER_def)
  have o: "content ?f ! 53 = TAB"
    by (simp add: content_two_calls_example IDENTIFIER_def)
  have c: "CHR ''x'' \<noteq> content ?f ! 53" by (simp add: o TAB_def)
  from scan_single_byte_change [OF l refl a b c] o l a b c show ?thesis by simp
qed

section \<open>Claims about the links of items\<close>

text \<open>
  Claim C7.  \<open>Node.set\<close> on a key that already holds a child is claimed to detach the
  previous child.  It does not.  With a new node \<open>n\<close> (item 0) and two new leaves \<open>a\<close>
  and \<open>b\<close> (items 1 and 2), after \<open>n.set('k', a)\<close> and \<open>n.set('k', b)\<close> the node holds
  \<open>b\<close> at \<open>k\<close>, and \<open>a\<close> still carries the link to \<open>n\<close> and \<open>k\<close>: it is attached to a
  parent that does not hold it, and storing it again raises \<open>StoreError\<close> (the item is
  already attached).  \<open>Node.remove\<close> on the same key does detach the child it drops.
\<close>

theorem node_set_keeps_previous_child_attached:
  "(let w3 = snd (new_Leaf (JInt 2) (snd (new_Leaf (JInt 1)
               (snd (new_Node \<lparr>objs = [], disk = open_in_memory, setups = []\<rparr>)))));
        w4 = snd (node_set 0 ''k'' 1 w3);
        w5 = snd (node_set 0 ''k'' 2 w4)
    in fst (node_set 0 ''k'' 1 w3) = None
     \<and> entries_of 0 w4 = [(''k'', Loaded 1)]
     \<and> o_link (objs w4 ! 1) = Some (Link (PItem 0) ''k'')
     \<and> fst (node_set 0 ''k'' 2 w4) = None
     \<and> entries_of 0 w5 = [(''k'', Loaded 2)]
     \<and> o_link (objs w5 ! 2) = Some (Link (PItem 0) ''k'')
     \<and> o_link (objs w5 ! 1) = Some (Link (PItem 0) ''k'')
     \<and> fst (node_set 0 ''j'' 1 w5) = Some StoreError
     \<and> fst (node_remove example_loads 0 ''k'' w4) = Inr 1
     \<and> o_link (objs (snd (node_remove example_loads 0 ''k'' w4)) ! 1) = None)"
  by (simp add: Let_def new_Node_def new_Leaf_def new_obj_def node_set_def attach_def
      item_changed_def changed.simps set_entries_def entries_of_def assign_def
      node_remove_def node_get_def detach_def is_node_def)

end
